theory Spec2Isabelle
  imports
    Main
    "HOL-Library.Word"
    "HOL-Library.FSet"
    "HOL-Library.Finite_Map"
    "HOL-Library.Multiset"
begin

unbundle bit_operations_syntax

chapter \<open>HashMouth: onion codec, ratchet, chunking, path builder and relay step\<close>

text \<open>
  A shallow embedding of the Go packages \<^verbatim>\<open>crypto\<close>, \<^verbatim>\<open>message\<close>, \<^verbatim>\<open>routing\<close> and
  \<^verbatim>\<open>network\<close>. Byte slices are lists of 8-bit words, Go strings are HOL strings, Go maps
  are finite maps, and every error return or runtime panic of the source is a value of
  the type \<open>error\<close>. Go's \<^verbatim>\<open>int\<close> is taken to be 64 bits wide (amd64, arm64); where an
  expression of the source can leave that range the wrap-around is written out.
\<close>

section \<open>Common types\<close>

type_synonym byte = "8 word"

datatype error =
    BadKeyLength              \<comment> \<open>chacha20poly1305.New: key is not 32 bytes\<close>
  | RandReadFailed            \<comment> \<open>an error returned by the random source\<close>
  | InvalidPayload            \<comment> \<open>"invalid payload": packet shorter than the nonce\<close>
  | AuthFailed                \<comment> \<open>aead.Open: message authentication failed\<close>
  | X25519Failed              \<comment> \<open>curve25519.X25519 returned an error\<close>
  | InvalidPeerPublicKey      \<comment> \<open>"invalid peer public key"\<close>
  | EmptyMessageID            \<comment> \<open>"message ID cannot be empty"\<close>
  | InvalidSequenceNumber     \<comment> \<open>"invalid sequence number"\<close>
  | TotalNotPositive          \<comment> \<open>"total chunks must be positive"\<close>
  | EmptyChunkData            \<comment> \<open>"chunk data cannot be empty"\<close>
  | MessageNotComplete        \<comment> \<open>"message is not complete"\<close>
  | ChunkSizeNotPositive      \<comment> \<open>"chunk size must be positive"\<close>
  | EmptyData                 \<comment> \<open>"data cannot be empty"\<close>
  | PanicMakesliceCap         \<comment> \<open>runtime panic: makeslice: cap out of range\<close>
  | PanicSliceBounds          \<comment> \<open>runtime panic: slice bounds out of range\<close>
  | PanicNilDereference       \<comment> \<open>runtime panic: nil pointer dereference\<close>
  | PanicIndexOutOfRange      \<comment> \<open>runtime panic: index out of range\<close>
  | PanicRandIntArgument      \<comment> \<open>rand.Int panics when its bound is not positive\<close>
  | EmptyPath                 \<comment> \<open>"path must contain at least one node"\<close>
  | MinLengthTooSmall         \<comment> \<open>"minimum path length must be at least 1"\<close>
  | MaxLengthBelowMin         \<comment> \<open>"maximum path length must be >= minimum path length"\<close>
  | NotEnoughNodesForMin      \<comment> \<open>"not enough nodes for minimum path length"\<close>
  | NoNodesAvailable          \<comment> \<open>"no nodes available"\<close>
  | NotEnoughNodesAfterExclusion \<comment> \<open>"not enough nodes after exclusion"\<close>
  | HopLimitExceeded          \<comment> \<open>"message exceeded hop limit"\<close>

section \<open>network/relay.go: the relay step\<close>

record RelayMessage =
  MessageID :: string
  NextHop :: string
  FinalDest :: string
  HopsLeft :: int
  Payload :: "byte list"
  Path :: "string list"
  Timestamp :: int

text \<open>
  The loop of \<^verbatim>\<open>ProcessRelayMessage\<close> over \<^verbatim>\<open>msg.Path\<close>: at the first index \<open>i\<close> holding
  the current node's ID with \<open>i + 1 < len(msg.Path)\<close>, the next hop becomes
  \<open>msg.Path[i+1]\<close> and the loop stops; when there is no such index the next hop stays.
\<close>

fun findNextHop :: "string list \<Rightarrow> string \<Rightarrow> string \<Rightarrow> string" where
  "findNextHop [] currentNodeID nextHop = nextHop"
| "findNextHop [node] currentNodeID nextHop = nextHop"
| "findNextHop (node # succ # rest) currentNodeID nextHop =
     (if node = currentNodeID then succ
      else findNextHop (succ # rest) currentNodeID nextHop)"

text \<open>
  \<^verbatim>\<open>ProcessRelayMessage\<close> updates the message in place and returns it with the flag
  "final destination"; the model returns the updated message. The receiver
  \<^verbatim>\<open>*RelayNetwork\<close> is neither read nor written by the function and is left out.
\<close>

definition ProcessRelayMessage :: "RelayMessage \<Rightarrow> string \<Rightarrow> error + (RelayMessage \<times> bool)" where
  "ProcessRelayMessage msg currentNodeID =
     (if FinalDest msg = currentNodeID then Inr (msg, True)
      else if HopsLeft msg \<le> 0 then Inl HopLimitExceeded
      else
        let msg1 = msg\<lparr>HopsLeft := HopsLeft msg - 1\<rparr>;
            msg2 = (if length (Path msg1) > 0
                    then msg1\<lparr>NextHop := findNextHop (Path msg1) currentNodeID (NextHop msg1)\<rparr>
                    else msg1)
        in Inr (msg2, False))"

section \<open>crypto/keys.go: the ratchet session\<close>

record RatchetSession =
  DHPrivate :: "byte list"
  DHPublic :: "byte list"
  PeerPub :: "byte list"
  RootKey :: "byte list"
  ChainKey :: "byte list"

text \<open>
  \<^verbatim>\<open>curve25519.X25519\<close> and the base point belong to an external library and are
  parameters: \<open>x25519 scalar point\<close> is \<open>None\<close> where the library returns an error.
  \<open>rnd\<close> is the outcome of \<^verbatim>\<open>rand.Read(priv)\<close>: the 32 bytes read, or \<open>None\<close> for an error.
\<close>

definition NewRatchetSession ::
  "(byte list \<Rightarrow> byte list \<Rightarrow> byte list option) \<Rightarrow> byte list \<Rightarrow> byte list option \<Rightarrow> byte list
     \<Rightarrow> error + RatchetSession" where
  "NewRatchetSession x25519 basepoint rnd peerPub =
     (case rnd of
        None \<Rightarrow> Inl RandReadFailed
      | Some priv \<Rightarrow>
          (case x25519 priv basepoint of
             None \<Rightarrow> Inl X25519Failed
           | Some pub \<Rightarrow>
               if length peerPub \<noteq> 32 then Inl InvalidPeerPublicKey
               else
                 (case x25519 priv peerPub of
                    None \<Rightarrow> Inl X25519Failed
                  | Some shared \<Rightarrow>
                      Inr \<lparr>DHPrivate = priv, DHPublic = pub, PeerPub = peerPub,
                           RootKey = shared, ChainKey = shared\<rparr>)))"

definition RatchetStep :: "RatchetSession \<Rightarrow> RatchetSession" where
  "RatchetStep r = r\<lparr>ChainKey := map (\<lambda>b. b XOR 0x55) (ChainKey r)\<rparr>"

text \<open>\<^verbatim>\<open>GetNextKey\<close> returns the key and leaves the session stepped.\<close>

definition GetNextKey :: "RatchetSession \<Rightarrow> byte list \<times> RatchetSession" where
  "GetNextKey r = (let r' = RatchetStep r in (ChainKey r', r'))"

section \<open>crypto/crypto.go: one onion layer\<close>

text \<open>
  The AEAD (ChaCha20-Poly1305, from an external library) is a parameter: \<open>Seal A key nonce
  plaintext aad\<close> is ciphertext followed by tag, \<open>Open A key nonce ciphertext aad\<close> is the
  plaintext, or \<open>None\<close> when authentication fails. The constructor
  \<^verbatim>\<open>chacha20poly1305.New\<close> accepts exactly the keys of \<^verbatim>\<open>KeySize\<close> = 32 bytes, and
  \<^verbatim>\<open>aead.NonceSize()\<close> is 12.
\<close>

record AEAD =
  Seal :: "byte list \<Rightarrow> byte list \<Rightarrow> byte list \<Rightarrow> byte list \<Rightarrow> byte list"
  Open :: "byte list \<Rightarrow> byte list \<Rightarrow> byte list \<Rightarrow> byte list \<Rightarrow> byte list option"

definition KeySize :: nat where
  "KeySize = 32"

definition NonceSize :: nat where
  "NonceSize = 12"

record OnionPacket =
  Payload :: "byte list"

text \<open>
  \<open>rnd\<close> is the outcome of \<^verbatim>\<open>io.ReadFull(rand.Reader, nonce)\<close>: the nonce read, or \<open>None\<close>
  for an error. \<^verbatim>\<open>aead.Seal(nonce, nonce, plain, nil)\<close> appends the sealed text to the nonce.
\<close>

definition CreateOnionPacket ::
  "AEAD \<Rightarrow> byte list option \<Rightarrow> byte list \<Rightarrow> byte list \<Rightarrow> error + OnionPacket" where
  "CreateOnionPacket A rnd plain key =
     (if length key \<noteq> KeySize then Inl BadKeyLength
      else
        (case rnd of
           None \<Rightarrow> Inl RandReadFailed
         | Some nonce \<Rightarrow> Inr \<lparr>Payload = nonce @ Seal A key nonce plain []\<rparr>))"

definition PeelOnion :: "AEAD \<Rightarrow> OnionPacket \<Rightarrow> byte list \<Rightarrow> error + byte list" where
  "PeelOnion A pkt key =
     (if length key \<noteq> KeySize then Inl BadKeyLength
      else if length (Payload pkt) < NonceSize then Inl InvalidPayload
      else
        (let nonce = take NonceSize (Payload pkt);
             ciphertext = drop NonceSize (Payload pkt)
         in case Open A key nonce ciphertext [] of
              None \<Rightarrow> Inl AuthFailed
            | Some plain \<Rightarrow> Inr plain))"

definition Serialize :: "OnionPacket \<Rightarrow> byte list" where
  "Serialize p = Payload p"

definition Deserialize :: "byte list \<Rightarrow> OnionPacket" where
  "Deserialize data = \<lparr>Payload = data\<rparr>"

text \<open>
  The loop of \<^verbatim>\<open>sendOnion\<close> (cmd/hashmouth.go) wraps from the last hop of the path to the
  first: \<^verbatim>\<open>current = CreateOnionPacket(current, key_i).Serialize()\<close> for \<open>i\<close> from
  \<open>len(path) - 1\<close> down to \<open>0\<close>. A layer is the hop's key with the outcome of the nonce
  read made for it; the first layer of the list is the outermost.
\<close>

fun wrapLayers :: "AEAD \<Rightarrow> (byte list \<times> byte list option) list \<Rightarrow> byte list \<Rightarrow> error + byte list" where
  "wrapLayers A [] data = Inr data"
| "wrapLayers A ((key, rnd) # layers) data =
     (case wrapLayers A layers data of
        Inl e \<Rightarrow> Inl e
      | Inr current \<Rightarrow>
          (case CreateOnionPacket A rnd current key of
             Inl e \<Rightarrow> Inl e
           | Inr pkt \<Rightarrow> Inr (Serialize pkt)))"

text \<open>
  Peeling along the path, as each hop does on receipt and as \<^verbatim>\<open>TestMultiLayerOnion\<close> does in
  sequence: \<^verbatim>\<open>Deserialize\<close>, then \<^verbatim>\<open>PeelOnion\<close> with the hop's key, the result going to the
  next hop.
\<close>

fun peelLayers :: "AEAD \<Rightarrow> byte list list \<Rightarrow> byte list \<Rightarrow> error + byte list" where
  "peelLayers A [] data = Inr data"
| "peelLayers A (key # keys) data =
     (case PeelOnion A (Deserialize data) key of
        Inl e \<Rightarrow> Inl e
      | Inr inner \<Rightarrow> peelLayers A keys inner)"

text \<open>What the AEAD construction guarantees: opening what was sealed returns the plaintext.\<close>

definition aead_correct :: "AEAD \<Rightarrow> bool" where
  "aead_correct A \<longleftrightarrow>
     (\<forall>key nonce plain aad. length key = KeySize \<longrightarrow> length nonce = NonceSize \<longrightarrow>
        Open A key nonce (Seal A key nonce plain aad) aad = Some plain)"

text \<open>
  The tag of ChaCha20-Poly1305 has 16 bytes (\<^verbatim>\<open>chacha20poly1305.Overhead\<close>): the sealed text is
  that much longer than the plaintext.
\<close>

definition TagSize :: nat where
  "TagSize = 16"

definition aead_overhead :: "AEAD \<Rightarrow> bool" where
  "aead_overhead A \<longleftrightarrow>
     (\<forall>key nonce plain aad. length key = KeySize \<longrightarrow> length nonce = NonceSize \<longrightarrow>
        length (Seal A key nonce plain aad) = length plain + TagSize)"

text \<open>
  Peeling with the wrong key always fails authentication: whatever was wrapped under one
  32-byte key, \<^verbatim>\<open>PeelOnion\<close> with any other 32-byte key returns the authentication error.
\<close>

definition wrong_key_rejected :: "AEAD \<Rightarrow> bool" where
  "wrong_key_rejected A \<longleftrightarrow>
     (\<forall>key key' nonce plain.
        length key = KeySize \<longrightarrow> length key' = KeySize \<longrightarrow> key \<noteq> key' \<longrightarrow>
        length nonce = NonceSize \<longrightarrow>
        (case CreateOnionPacket A (Some nonce) plain key of
           Inl e \<Rightarrow> False
         | Inr pkt \<Rightarrow> PeelOnion A pkt key' = Inl AuthFailed))"

text \<open>
  A small instance of the interface, for running the codec on concrete inputs: the sealed
  text is the plaintext followed by the key as its tag.
\<close>

definition tagAEAD :: AEAD where
  "tagAEAD =
     \<lparr>Seal = (\<lambda>key nonce plain aad. plain @ key),
      Open = (\<lambda>key nonce sealed aad.
                if length key \<le> length sealed \<and> drop (length sealed - length key) sealed = key
                then Some (take (length sealed - length key) sealed) else None)\<rparr>"

section \<open>message/chunk.go: chunks, the assembler, splitting\<close>

record Chunk =
  MessageID :: string
  Seq :: int
  Total :: int
  Data :: "byte list"

definition NewChunk :: "string \<Rightarrow> int \<Rightarrow> int \<Rightarrow> byte list \<Rightarrow> Chunk" where
  "NewChunk messageID seq ntotal data =
     \<lparr>MessageID = messageID, Seq = seq, Total = ntotal, Data = data\<rparr>"

text \<open>\<^verbatim>\<open>Validate\<close> returns the first error found, \<open>None\<close> for Go's \<^verbatim>\<open>nil\<close>.\<close>

definition Validate :: "Chunk \<Rightarrow> error option" where
  "Validate c =
     (if MessageID c = [] then Some EmptyMessageID
      else if Seq c < 0 \<or> Seq c \<ge> Total c then Some InvalidSequenceNumber
      else if Total c \<le> 0 then Some TotalNotPositive
      else if length (Data c) = 0 then Some EmptyChunkData
      else None)"

record ChunkAssembler =
  chunks :: "(string, (int, Chunk) fmap) fmap"

definition NewChunkAssembler :: ChunkAssembler where
  "NewChunkAssembler = \<lparr>chunks = fmempty\<rparr>"

text \<open>
  \<^verbatim>\<open>AddChunk\<close> mutates the assembler; the model returns the error (or \<open>None\<close>) together with
  the assembler afterwards.
\<close>

definition AddChunk :: "ChunkAssembler \<Rightarrow> Chunk \<Rightarrow> error option \<times> ChunkAssembler" where
  "AddChunk ca chunk =
     (case Validate chunk of
        Some err \<Rightarrow> (Some err, ca)
      | None \<Rightarrow>
          let ca1 = (if fmlookup (chunks ca) (MessageID chunk) = None
                     then ca\<lparr>chunks := fmupd (MessageID chunk) fmempty (chunks ca)\<rparr>
                     else ca);
              inner = (case fmlookup (chunks ca1) (MessageID chunk) of
                         None \<Rightarrow> fmempty | Some m \<Rightarrow> m)
          in (None, ca1\<lparr>chunks := fmupd (MessageID chunk) (fmupd (Seq chunk) chunk inner) (chunks ca1)\<rparr>))"

text \<open>The loop \<^verbatim>\<open>for i := 0; i < total; i++\<close> of \<^verbatim>\<open>IsComplete\<close>, from index \<open>i\<close> on.\<close>

function seqsPresent :: "(int, Chunk) fmap \<Rightarrow> int \<Rightarrow> int \<Rightarrow> bool" where
  "seqsPresent cs ntotal i =
     (if i < ntotal
      then (if fmlookup cs i = None then False else seqsPresent cs ntotal (i + 1))
      else True)"
  by pat_completeness auto
termination
  by (relation "measure (\<lambda>(cs, ntotal, i). nat (ntotal - i))") auto

declare seqsPresent.simps [simp del]

text \<open>
  \<^verbatim>\<open>IsComplete\<close> reads \<^verbatim>\<open>total\<close> from the first chunk that \<^verbatim>\<open>range chunks\<close> yields and
  leaves the loop at once. Go leaves the iteration order of a map unspecified, so the
  sequence number \<open>first\<close> of the chunk yielded first is an input of the model; it is a
  key of the map whenever the map is not empty. (\<^verbatim>\<open>total\<close> is declared with the zero
  value, which it keeps when nothing is yielded.)
\<close>

definition IsComplete :: "ChunkAssembler \<Rightarrow> int \<Rightarrow> string \<Rightarrow> bool" where
  "IsComplete ca first messageID =
     (case fmlookup (chunks ca) messageID of
        None \<Rightarrow> False
      | Some cs \<Rightarrow>
          if fcard (fmdom cs) = 0 then False
          else
            let ntotal = (case fmlookup cs first of None \<Rightarrow> 0 | Some chunk \<Rightarrow> Total chunk)
            in if int (fcard (fmdom cs)) \<noteq> ntotal then False
               else seqsPresent cs ntotal 0)"

text \<open>
  The loop of \<^verbatim>\<open>Assemble\<close>, from index \<open>i\<close> on. \<^verbatim>\<open>chunks[i]\<close> is \<^verbatim>\<open>nil\<close> for a missing key
  and \<^verbatim>\<open>chunks[i].Data\<close> then panics.
\<close>

function assembleLoop :: "(int, Chunk) fmap \<Rightarrow> int \<Rightarrow> int \<Rightarrow> byte list \<Rightarrow> error + byte list" where
  "assembleLoop cs ntotal i result =
     (if i < ntotal
      then (case fmlookup cs i of
              None \<Rightarrow> Inl PanicNilDereference
            | Some chunk \<Rightarrow> assembleLoop cs ntotal (i + 1) (result @ Data chunk))
      else Inr result)"
  by pat_completeness auto
termination
  by (relation "measure (\<lambda>(cs, ntotal, i, result). nat (ntotal - i))") auto

declare assembleLoop.simps [simp del]

text \<open>
  \<^verbatim>\<open>Assemble\<close> returns the bytes or an error, and the assembler afterwards: the entry is
  deleted only on success, every failure leaves the assembler as it was.
\<close>

definition Assemble :: "ChunkAssembler \<Rightarrow> int \<Rightarrow> string \<Rightarrow> (error + byte list) \<times> ChunkAssembler" where
  "Assemble ca first messageID =
     (if \<not> IsComplete ca first messageID then (Inl MessageNotComplete, ca)
      else
        (case fmlookup (chunks ca) messageID of
           None \<Rightarrow> (Inl PanicNilDereference, ca)
         | Some cs \<Rightarrow>
             (case fmlookup cs 0 of
                None \<Rightarrow> (Inl PanicNilDereference, ca)
              | Some chunk0 \<Rightarrow>
                  (case assembleLoop cs (Total chunk0) 0 [] of
                     Inl e \<Rightarrow> (Inl e, ca)
                   | Inr result \<Rightarrow> (Inr result, ca\<lparr>chunks := fmdrop messageID (chunks ca)\<rparr>)))))"

text \<open>
  Arithmetic on Go's 64-bit \<^verbatim>\<open>int\<close>: \<open>int64\<close> wraps a mathematical result into
  \<open>[-2^63, 2^63)\<close>, and \<^verbatim>\<open>/\<close> truncates towards zero.
\<close>

definition int64 :: "int \<Rightarrow> int" where
  "int64 x = signed_take_bit 63 x"

definition go_div :: "int \<Rightarrow> int \<Rightarrow> int" where
  "go_div a b = sgn a * sgn b * (\<bar>a\<bar> div \<bar>b\<bar>)"

text \<open>
  The loop of \<^verbatim>\<open>SplitMessage\<close>, from index \<open>i\<close> on. The slice expression
  \<^verbatim>\<open>data[start:end]\<close> panics unless \<open>0 \<le> start \<le> end \<le> cap(data)\<close>; \<open>end\<close> has been
  clamped to \<open>len(data)\<close> before.
\<close>

function splitLoop :: "string \<Rightarrow> byte list \<Rightarrow> int \<Rightarrow> int \<Rightarrow> int \<Rightarrow> Chunk list \<Rightarrow> error + Chunk list" where
  "splitLoop messageID data chunkSize ntotal i acc =
     (if i < ntotal
      then
        (let start = int64 (i * chunkSize);
             end0 = int64 (start + chunkSize);
             end1 = (if end0 > int (length data) then int (length data) else end0)
         in if start < 0 \<or> end1 < start then Inl PanicSliceBounds
            else splitLoop messageID data chunkSize ntotal (i + 1)
                   (acc @ [NewChunk messageID i ntotal
                             (take (nat (end1 - start)) (drop (nat start) data))]))
      else Inr acc)"
  by pat_completeness auto
termination
  by (relation "measure (\<lambda>(messageID, data, chunkSize, ntotal, i, acc). nat (ntotal - i))") auto

declare splitLoop.simps [simp del]

text \<open>
  \<^verbatim>\<open>make([]*Chunk, 0, total)\<close> panics when \<open>total\<close> is negative, which the wrapped sum
  \<open>len(data) + chunkSize - 1\<close> can make it.
\<close>

definition SplitMessage :: "string \<Rightarrow> byte list \<Rightarrow> int \<Rightarrow> error + Chunk list" where
  "SplitMessage messageID data chunkSize =
     (if chunkSize \<le> 0 then Inl ChunkSizeNotPositive
      else if length data = 0 then Inl EmptyData
      else
        let ntotal = go_div (int64 (int64 (int (length data) + chunkSize) - 1)) chunkSize
        in if ntotal < 0 then Inl PanicMakesliceCap
           else splitLoop messageID data chunkSize ntotal 0 [])"

text \<open>
  Adding a list of chunks one after the other, stopping at the first error, as the
  receiving side and \<^verbatim>\<open>TestChunkAssembler\<close> do.
\<close>

fun addChunks :: "ChunkAssembler \<Rightarrow> Chunk list \<Rightarrow> error option \<times> ChunkAssembler" where
  "addChunks ca [] = (None, ca)"
| "addChunks ca (c # cs) =
     (case AddChunk ca c of
        (Some err, ca') \<Rightarrow> (Some err, ca')
      | (None, ca') \<Rightarrow> addChunks ca' cs)"

text \<open>The validity predicate of a chunk, and the assemblers all of whose chunks satisfy it.\<close>

definition chunk_valid :: "Chunk \<Rightarrow> bool" where
  "chunk_valid c \<longleftrightarrow>
     MessageID c \<noteq> [] \<and> 0 \<le> Seq c \<and> Seq c < Total c \<and> 0 < Total c \<and> Data c \<noteq> []"

definition stored_valid :: "ChunkAssembler \<Rightarrow> bool" where
  "stored_valid ca \<longleftrightarrow> fmpred (\<lambda>messageID cs. fmpred (\<lambda>seq c. chunk_valid c) cs) (chunks ca)"

text \<open>The sequence numbers and the chunks stored for a message.\<close>

definition stored_seqs :: "ChunkAssembler \<Rightarrow> string \<Rightarrow> int set" where
  "stored_seqs ca messageID =
     (case fmlookup (chunks ca) messageID of None \<Rightarrow> {} | Some cs \<Rightarrow> fmdom' cs)"

definition stored_chunks :: "ChunkAssembler \<Rightarrow> string \<Rightarrow> Chunk set" where
  "stored_chunks ca messageID =
     (case fmlookup (chunks ca) messageID of None \<Rightarrow> {} | Some cs \<Rightarrow> fmran' cs)"

section \<open>routing/path.go: the path builder\<close>

record Path =
  Nodes :: "string list"

definition NewPath :: "string list \<Rightarrow> error + Path" where
  "NewPath nodes = (if length nodes = 0 then Inl EmptyPath else Inr \<lparr>Nodes = nodes\<rparr>)"

record PathBuilder =
  availableNodes :: "string list"
  minPathLength :: int
  maxPathLength :: int

definition NewPathBuilder :: "string list \<Rightarrow> int \<Rightarrow> int \<Rightarrow> error + PathBuilder" where
  "NewPathBuilder nodes minLength maxLength =
     (if minLength < 1 then Inl MinLengthTooSmall
      else if maxLength < minLength then Inl MaxLengthBelowMin
      else if int (length nodes) < minLength then Inl NotEnoughNodesForMin
      else Inr \<lparr>availableNodes = nodes, minPathLength = minLength, maxPathLength = maxLength\<rparr>)"

text \<open>
  The selection loop of \<^verbatim>\<open>BuildRandomPath\<close>. Each element of \<open>draws\<close> is the outcome of one
  call \<^verbatim>\<open>rand.Int(rand.Reader, len(availableNodes))\<close>, in the order of the calls: the index
  drawn, or \<open>None\<close> for an error. The loop has no bound of its own and runs for as long as
  the draws repeat indices already used; the result is \<open>None\<close> when the loop is still
  running after the last of the given draws. \<^verbatim>\<open>rand.Int\<close> returns an index below its bound;
  an index outside the list would make \<^verbatim>\<open>availableNodes[index]\<close> panic.
\<close>

fun selectNodes ::
  "string list \<Rightarrow> int \<Rightarrow> nat option list \<Rightarrow> string list \<Rightarrow> nat set \<Rightarrow> (error + string list) option" where
  "selectNodes avail pathLength draws selectedNodes usedIndices =
     (if int (length selectedNodes) < pathLength
      then
        (case draws of
           [] \<Rightarrow> None
         | None # rest \<Rightarrow> Some (Inl RandReadFailed)
         | Some index # rest \<Rightarrow>
             if index \<notin> usedIndices
             then
               (if index < length avail
                then selectNodes avail pathLength rest (selectedNodes @ [avail ! index])
                       (insert index usedIndices)
                else Some (Inl PanicIndexOutOfRange))
             else selectNodes avail pathLength rest selectedNodes usedIndices)
      else Some (Inr selectedNodes))"

declare selectNodes.simps [simp del]

text \<open>
  \<open>lengthOffset\<close> is the outcome of \<^verbatim>\<open>rand.Int(rand.Reader, lengthRange)\<close>. With the bounds
  that \<^verbatim>\<open>NewPathBuilder\<close> admits, \<open>1 \<le> minPathLength \<le> maxPathLength\<close>, neither
  \<open>lengthRange\<close> nor \<open>pathLength\<close> leaves the range of \<^verbatim>\<open>int\<close>.
  \<^verbatim>\<open>make([]string, 0, pathLength)\<close> panics when \<open>pathLength\<close> is negative.
\<close>

definition BuildRandomPath ::
  "PathBuilder \<Rightarrow> nat option \<Rightarrow> nat option list \<Rightarrow> (error + Path) option" where
  "BuildRandomPath pb lengthOffset draws =
     (if length (availableNodes pb) = 0 then Some (Inl NoNodesAvailable)
      else
        let lengthRange = maxPathLength pb - minPathLength pb + 1
        in if lengthRange \<le> 0 then Some (Inl PanicRandIntArgument)
           else
             (case lengthOffset of
                None \<Rightarrow> Some (Inl RandReadFailed)
              | Some off \<Rightarrow>
                  let pathLength0 = minPathLength pb + int off;
                      pathLength = (if pathLength0 > int (length (availableNodes pb))
                                    then int (length (availableNodes pb)) else pathLength0)
                  in if pathLength < 0 then Some (Inl PanicMakesliceCap)
                     else
                       (case selectNodes (availableNodes pb) pathLength draws [] {} of
                          None \<Rightarrow> None
                        | Some (Inl e) \<Rightarrow> Some (Inl e)
                        | Some (Inr selectedNodes) \<Rightarrow> Some (NewPath selectedNodes))))"

definition BuildPathExcluding ::
  "PathBuilder \<Rightarrow> string list \<Rightarrow> nat option \<Rightarrow> nat option list \<Rightarrow> (error + Path) option" where
  "BuildPathExcluding pb excludeNodes lengthOffset draws =
     (let filtered = filter (\<lambda>node. node \<notin> set excludeNodes) (availableNodes pb)
      in if int (length filtered) < minPathLength pb then Some (Inl NotEnoughNodesAfterExclusion)
         else
           (case NewPathBuilder filtered (minPathLength pb) (maxPathLength pb) of
              Inl e \<Rightarrow> Some (Inl e)
            | Inr tempBuilder \<Rightarrow> BuildRandomPath tempBuilder lengthOffset draws))"

text \<open>The indices that a list of draws names.\<close>

definition drawn :: "nat option list \<Rightarrow> nat set" where
  "drawn draws = {i. Some i \<in> set draws}"

section \<open>Auxiliary notions and concrete inputs\<close>

text \<open>A message for node D on the path A, B, C with two hops left, and the same with none.\<close>

definition relay_msg :: RelayMessage where
  "relay_msg =
     \<lparr>RelayMessage.MessageID = ''m1'', NextHop = ''B'', FinalDest = ''D'', HopsLeft = 2,
      RelayMessage.Payload = [1, 2, 3], Path = [''A'', ''B'', ''C''], Timestamp = 1700000000\<rparr>"

definition spent_msg :: RelayMessage where
  "spent_msg = relay_msg\<lparr>HopsLeft := 0\<rparr>"

text \<open>
  Layers that can be wrapped: every key has 32 bytes and every nonce read succeeded with
  12 bytes.
\<close>

definition layers_ok :: "(byte list \<times> byte list option) list \<Rightarrow> bool" where
  "layers_ok layers \<longleftrightarrow>
     list_all (\<lambda>(key, rnd). length key = KeySize \<and>
                 (case rnd of None \<Rightarrow> False | Some nonce \<Rightarrow> length nonce = NonceSize)) layers"

text \<open>Three hops with distinct keys and nonces, and a key one byte short.\<close>

definition three_layers :: "(byte list \<times> byte list option) list" where
  "three_layers =
     [(replicate 32 1, Some (replicate 12 7)),
      (replicate 32 2, Some (replicate 12 8)),
      (replicate 32 3, Some (replicate 12 9))]"

definition short_key :: "byte list" where
  "short_key = replicate 31 0"

text \<open>The chunk map of a message, empty when the assembler has no entry for it.\<close>

definition inner_chunks :: "ChunkAssembler \<Rightarrow> string \<Rightarrow> (int, Chunk) fmap" where
  "inner_chunks ca mid = (case fmlookup (chunks ca) mid of None \<Rightarrow> fmempty | Some m \<Rightarrow> m)"

text \<open>
  Three assemblers, each after two calls of \<^verbatim>\<open>AddChunk\<close> for message \<open>m\<close>: one holding
  sequence numbers 0 and 1 of chunks that report totals 2 and 3, one holding them with
  the totals 3 and 2, and one holding both chunks of a message of two.
\<close>

definition mixed_totals :: ChunkAssembler where
  "mixed_totals =
     snd (AddChunk (snd (AddChunk NewChunkAssembler (NewChunk ''m'' 0 2 [1]))) (NewChunk ''m'' 1 3 [2]))"

definition mirrored_totals :: ChunkAssembler where
  "mirrored_totals =
     snd (AddChunk (snd (AddChunk NewChunkAssembler (NewChunk ''m'' 0 3 [1]))) (NewChunk ''m'' 1 2 [2]))"

definition both_of_two :: ChunkAssembler where
  "both_of_two =
     snd (AddChunk (snd (AddChunk NewChunkAssembler (NewChunk ''m'' 1 2 [2]))) (NewChunk ''m'' 0 2 [1]))"

text \<open>
  The nodes left after the exclusion (the list \<^verbatim>\<open>filtered\<close> of \<^verbatim>\<open>BuildPathExcluding\<close>), and
  the lists of draws in which every call of the random source succeeded with an index
  below \<open>n\<close>.
\<close>

definition remaining :: "PathBuilder \<Rightarrow> string list \<Rightarrow> string list" where
  "remaining pb excludeNodes = filter (\<lambda>node. node \<notin> set excludeNodes) (availableNodes pb)"

definition draws_succeed :: "nat \<Rightarrow> nat option list \<Rightarrow> bool" where
  "draws_succeed n draws \<longleftrightarrow> list_all (\<lambda>d. case d of None \<Rightarrow> False | Some i \<Rightarrow> i < n) draws"

text \<open>
  Ten nodes with path lengths from 2 to 4, an exclusion of three and one of nine nodes,
  and five draws, one of them a repetition.
\<close>

definition ten_nodes :: PathBuilder where
  "ten_nodes =
     \<lparr>availableNodes = [''n0'', ''n1'', ''n2'', ''n3'', ''n4'', ''n5'', ''n6'', ''n7'', ''n8'', ''n9''],
      minPathLength = 2, maxPathLength = 4\<rparr>"

definition three_excluded :: "string list" where
  "three_excluded = [''n0'', ''n1'', ''n2'']"

definition nine_excluded :: "string list" where
  "nine_excluded = [''n0'', ''n1'', ''n2'', ''n3'', ''n4'', ''n5'', ''n6'', ''n7'', ''n8'']"

definition four_draws :: "nat option list" where
  "four_draws = [Some 4, Some 4, Some 0, Some 6, Some 2]"

text \<open>
  What splitting is to produce: the number of chunks \<open>\<lceil>|data| / chunkSize\<rceil>\<close>, and chunk
  \<open>j\<close> of \<open>n\<close>, which carries the bytes from \<open>j * chunkSize\<close> on, at most \<open>chunkSize\<close> of them.
\<close>

definition chunk_count :: "byte list \<Rightarrow> int \<Rightarrow> int" where
  "chunk_count data chunkSize = (int (length data) + chunkSize - 1) div chunkSize"

definition chunk_at :: "string \<Rightarrow> byte list \<Rightarrow> int \<Rightarrow> int \<Rightarrow> int \<Rightarrow> Chunk" where
  "chunk_at messageID data chunkSize n j =
     NewChunk messageID j n (take (nat chunkSize) (drop (nat (j * chunkSize)) data))"

text \<open>The mathematical integers that a 64-bit \<^verbatim>\<open>int\<close> holds.\<close>

definition in_int64 :: "int \<Rightarrow> bool" where
  "in_int64 x \<longleftrightarrow> - (2 ^ 63) \<le> x \<and> x < 2 ^ 63"

text \<open>The chunk map after storing a list of chunks, each under its sequence number.\<close>

definition store_all :: "Chunk list \<Rightarrow> (int, Chunk) fmap \<Rightarrow> (int, Chunk) fmap" where
  "store_all cs m = fold (\<lambda>c m. fmupd (Seq c) c m) cs m"

section \<open>The relay step: hop counter and frame\<close>

text \<open>
  Claim C8 says that the hop counter is decremented once per relay step and that a packet
  with hop count \<open>\<le> 0\<close> is dropped with the hop-limit error rather than relayed or
  delivered. \<^verbatim>\<open>ProcessRelayMessage\<close> tests for the final destination first: at its final
  destination a message with no hops left is delivered. Here the message for D
  with \<open>HopsLeft = 0\<close> arrives at D.
\<close>

theorem relay_spent_message_delivered:
  "HopsLeft spent_msg \<le> 0 \<and>
   ProcessRelayMessage spent_msg ''D'' = Inr (spent_msg, True) \<and>
   ProcessRelayMessage spent_msg ''D'' \<noteq> Inl HopLimitExceeded"
  by (simp add: ProcessRelayMessage_def spent_msg_def relay_msg_def)

text \<open>
  Claim C8, amended: at a node that is not the final destination, a message with hop count
  \<open>\<le> 0\<close> is dropped with the hop-limit error, and any other message is relayed with the
  hop counter decremented by exactly one; at the final destination the message is
  delivered as it is, whatever its hop count, and the counter is not touched.
\<close>

theorem relay_hop_counter:
  "(FinalDest msg \<noteq> cur \<and> HopsLeft msg \<le> 0 \<longrightarrow>
      ProcessRelayMessage msg cur = Inl HopLimitExceeded) \<and>
   (FinalDest msg \<noteq> cur \<and> 0 < HopsLeft msg \<longrightarrow>
      (\<exists>msg'. ProcessRelayMessage msg cur = Inr (msg', False) \<and>
             HopsLeft msg' = HopsLeft msg - 1)) \<and>
   (FinalDest msg = cur \<longrightarrow> ProcessRelayMessage msg cur = Inr (msg, True))"
  by (simp add: ProcessRelayMessage_def Let_def)

theorem relay_hop_counter_witness:
  "ProcessRelayMessage spent_msg ''B'' = Inl HopLimitExceeded \<and>
   (\<exists>msg'. ProcessRelayMessage relay_msg ''B'' = Inr (msg', False) \<and> HopsLeft msg' = 1) \<and>
   ProcessRelayMessage relay_msg ''D'' = Inr (relay_msg, True)"
  using relay_hop_counter [of spent_msg "''B''"] relay_hop_counter [of relay_msg "''B''"]
    relay_hop_counter [of relay_msg "''D''"]
  by (simp add: spent_msg_def relay_msg_def)

text \<open>
  Claim C9: whenever \<^verbatim>\<open>ProcessRelayMessage\<close> returns a message, its MessageID, FinalDest,
  Payload, Path and Timestamp are those of the message received, the message returned
  being the one received with at most HopsLeft and NextHop changed; and when the final
  destination is the current node the message is returned unmodified, flagged as final.
\<close>

theorem relay_frame:
  "ProcessRelayMessage msg cur = Inr (msg', final) \<Longrightarrow>
     RelayMessage.MessageID msg' = RelayMessage.MessageID msg \<and>
     FinalDest msg' = FinalDest msg \<and>
     RelayMessage.Payload msg' = RelayMessage.Payload msg \<and>
     Path msg' = Path msg \<and>
     Timestamp msg' = Timestamp msg \<and>
     (\<exists>h n. msg' = msg\<lparr>HopsLeft := h, NextHop := n\<rparr>) \<and>
     (FinalDest msg = cur \<longrightarrow> msg' = msg \<and> final)"
proof (cases "FinalDest msg = cur")
  case True
  assume "ProcessRelayMessage msg cur = Inr (msg', final)"
  with True have "msg' = msg" "final"
    by (simp_all add: ProcessRelayMessage_def)
  moreover have "msg = msg\<lparr>HopsLeft := HopsLeft msg, NextHop := NextHop msg\<rparr>"
    by simp
  ultimately show ?thesis by blast
next
  case False
  assume r: "ProcessRelayMessage msg cur = Inr (msg', final)"
  with False have pos: "\<not> HopsLeft msg \<le> 0"
    by (auto simp: ProcessRelayMessage_def split: if_splits)
  define n where
    "n = (if length (Path msg) > 0 then findNextHop (Path msg) cur (NextHop msg) else NextHop msg)"
  from r False pos have "msg' = msg\<lparr>HopsLeft := HopsLeft msg - 1, NextHop := n\<rparr>"
    by (auto simp: ProcessRelayMessage_def Let_def n_def split: if_splits)
  then show ?thesis using False by auto
qed

theorem relay_frame_witness:
  "ProcessRelayMessage relay_msg ''B'' = Inr (relay_msg\<lparr>HopsLeft := 1, NextHop := ''C''\<rparr>, False) \<and>
   RelayMessage.MessageID (relay_msg\<lparr>HopsLeft := 1, NextHop := ''C''\<rparr>) = ''m1'' \<and>
   FinalDest (relay_msg\<lparr>HopsLeft := 1, NextHop := ''C''\<rparr>) = ''D'' \<and>
   RelayMessage.Payload (relay_msg\<lparr>HopsLeft := 1, NextHop := ''C''\<rparr>) = [1, 2, 3] \<and>
   Path (relay_msg\<lparr>HopsLeft := 1, NextHop := ''C''\<rparr>) = [''A'', ''B'', ''C''] \<and>
   Timestamp (relay_msg\<lparr>HopsLeft := 1, NextHop := ''C''\<rparr>) = 1700000000 \<and>
   ProcessRelayMessage relay_msg ''D'' = Inr (relay_msg, True)"
proof -
  have 1: "ProcessRelayMessage relay_msg ''B'' = Inr (relay_msg\<lparr>HopsLeft := 1, NextHop := ''C''\<rparr>, False)"
    by (simp add: ProcessRelayMessage_def relay_msg_def)
  have 2: "ProcessRelayMessage relay_msg ''D'' = Inr (relay_msg, True)"
    by (simp add: ProcessRelayMessage_def relay_msg_def)
  show ?thesis
    using 1 2 relay_frame [OF 1] relay_frame [OF 2]
    by (simp add: relay_msg_def)
qed

section \<open>The ratchet: chain keys repeat\<close>

lemma RatchetStep_twice:
  "RatchetStep (RatchetStep r) = r"
  by (simp add: RatchetStep_def o_def xor.assoc)

text \<open>
  Claim C3 asks that the chain keys after \<open>j\<close> and after \<open>k\<close> ratchet steps differ whenever
  \<open>j \<noteq> k\<close>. \<^verbatim>\<open>RatchetStep\<close> XORs every byte with the constant 0x55, so two steps
  restore the chain key: for every session, the chain key after \<open>k + 2\<close> steps is the chain
  key after \<open>k\<close> steps, and the third call of \<^verbatim>\<open>GetNextKey\<close> returns the key that the first
  call returned.
\<close>

theorem ratchet_chain_key_repeats:
  "ChainKey ((RatchetStep ^^ (k + 2)) r) = ChainKey ((RatchetStep ^^ k) r) \<and>
   fst (GetNextKey (snd (GetNextKey (snd (GetNextKey r))))) = fst (GetNextKey r)"
proof -
  have "(RatchetStep ^^ (k + 2)) r = (RatchetStep ^^ k) (RatchetStep (RatchetStep r))"
    by (simp add: funpow_add funpow_swap1)
  then show ?thesis
    by (simp add: GetNextKey_def RatchetStep_twice Let_def)
qed

section \<open>The onion codec: round trip and failure modes\<close>

lemma tagAEAD_correct:
  "aead_correct tagAEAD"
  by (simp add: aead_correct_def tagAEAD_def)

lemma peel_create_bytes:
  assumes "aead_correct A" "length key = KeySize" "length nonce = NonceSize"
  shows "\<exists>c. CreateOnionPacket A (Some nonce) plain key = Inr \<lparr>Payload = c\<rparr> \<and>
             PeelOnion A (Deserialize c) key = Inr plain"
  using assms
  by (simp add: CreateOnionPacket_def PeelOnion_def aead_correct_def Deserialize_def)

lemma wrap_then_peel:
  assumes "aead_correct A"
  shows "layers_ok layers \<Longrightarrow>
           \<exists>c. wrapLayers A layers plain = Inr c \<and> peelLayers A (map fst layers) c = Inr plain"
proof (induction layers)
  case Nil
  then show ?case by simp
next
  case (Cons l layers)
  obtain key rnd where l: "l = (key, rnd)"
    by (cases l)
  from Cons.prems l obtain nonce
    where k: "length key = KeySize" and r: "rnd = Some nonce"
      and n: "length nonce = NonceSize" and ok: "layers_ok layers"
    by (auto simp: layers_ok_def split: option.splits)
  from Cons.IH [OF ok] obtain c
    where c: "wrapLayers A layers plain = Inr c" "peelLayers A (map fst layers) c = Inr plain"
    by blast
  from peel_create_bytes [OF assms k n, of c] obtain c'
    where c': "CreateOnionPacket A (Some nonce) c key = Inr \<lparr>Payload = c'\<rparr>"
      "PeelOnion A (Deserialize c') key = Inr c"
    by blast
  show ?case
    using c c' l r by (simp add: Serialize_def)
qed

text \<open>
  Claim C1: with an AEAD that opens what it sealed, for every list of hops with 32-byte
  keys (and nonce reads that succeed) and every payload, wrapping from the innermost hop
  to the outermost succeeds and peeling the result with the keys in path order returns
  exactly the payload; and for a single 32-byte key, peeling the packet that
  \<^verbatim>\<open>CreateOnionPacket\<close> made with that key returns the plaintext.
\<close>

theorem onion_round_trip:
  assumes "aead_correct A"
  shows "(layers_ok layers \<longrightarrow>
            (\<exists>c. wrapLayers A layers plain = Inr c \<and>
                 peelLayers A (map fst layers) c = Inr plain)) \<and>
         (length key = KeySize \<and> length nonce = NonceSize \<longrightarrow>
            (\<exists>pkt. CreateOnionPacket A (Some nonce) plain key = Inr pkt \<and>
                   PeelOnion A pkt key = Inr plain))"
proof -
  have "length key = KeySize \<and> length nonce = NonceSize \<longrightarrow>
          (\<exists>pkt. CreateOnionPacket A (Some nonce) plain key = Inr pkt \<and>
                 PeelOnion A pkt key = Inr plain)"
    using assms by (simp add: CreateOnionPacket_def PeelOnion_def aead_correct_def)
  with wrap_then_peel [OF assms] show ?thesis
    by blast
qed

theorem onion_round_trip_witness:
  "aead_correct tagAEAD \<and> layers_ok three_layers \<and>
   (\<exists>c. wrapLayers tagAEAD three_layers [72, 105] = Inr c \<and>
        peelLayers tagAEAD [replicate 32 1, replicate 32 2, replicate 32 3] c = Inr [72, 105]) \<and>
   (\<exists>pkt. CreateOnionPacket tagAEAD (Some (replicate 12 7)) [72, 105] (replicate 32 1) = Inr pkt \<and>
          PeelOnion tagAEAD pkt (replicate 32 1) = Inr [72, 105])"
proof -
  have ok: "layers_ok three_layers"
    by (simp add: layers_ok_def three_layers_def KeySize_def NonceSize_def)
  have keys: "map fst three_layers = [replicate 32 1, replicate 32 2, replicate 32 3]"
    by (simp add: three_layers_def)
  show ?thesis
    using onion_round_trip [OF tagAEAD_correct, of three_layers "[72, 105]" "replicate 32 1" "replicate 12 7"]
      ok keys tagAEAD_correct
    by (simp add: KeySize_def NonceSize_def)
qed

lemma card_byte_lists: "card {xs :: byte list. length xs = n} = 256 ^ n"
proof -
  have "card {xs :: byte list. set xs \<subseteq> UNIV \<and> length xs = n} = card (UNIV :: byte set) ^ n"
    by (rule card_lists_length_eq) simp
  then show ?thesis by (simp add: card_word)
qed

lemma finite_byte_lists: "finite {xs :: byte list. length xs = n}"
  using finite_lists_length_eq [of "UNIV :: byte set" n] by simp

lemma key_collision:
  assumes "aead_overhead A" "length nonce = NonceSize"
  shows "\<exists>key key'. length key = KeySize \<and> length key' = KeySize \<and> key \<noteq> key' \<and>
           Seal A key nonce [] [] = Seal A key' nonce [] []"
proof -
  define K where "K = {k :: byte list. length k = KeySize}"
  define f where "f k = Seal A k nonce [] []" for k
  have "f ` K \<subseteq> {t. length t = TagSize}"
    using assms by (auto simp: K_def f_def aead_overhead_def)
  then have "card (f ` K) \<le> card {t :: byte list. length t = TagSize}"
    by (rule card_mono [OF finite_byte_lists])
  also have "\<dots> < card K"
    by (simp add: K_def card_byte_lists TagSize_def KeySize_def)
  finally have "\<not> inj_on f K"
    by (rule pigeonhole)
  then show ?thesis
    by (auto simp: inj_on_def K_def f_def)
qed

text \<open>
  Claim C4 says, for every key, that \<^verbatim>\<open>PeelOnion\<close> fails with the malformed-packet error
  when the payload is shorter than the nonce, with the authentication error when the tag
  does not verify, in particular whenever the peeling key differs from the wrapping key,
  and in no other way. Two parts fail. \<^verbatim>\<open>PeelOnion\<close> first builds the cipher from the key
  and returns the constructor's error: with a key of 31 bytes a packet of 3 bytes fails
  with the key-length error, which is neither of the two. And no cipher that opens what
  it sealed and has a 16-byte tag, as ChaCha20-Poly1305 has, makes \<^verbatim>\<open>PeelOnion\<close> reject under
  every wrong key: there are more 32-byte keys than sealed texts of the empty plaintext,
  so two keys seal it alike, and what one sealed the other opens.
\<close>

theorem peel_other_failure_and_wrong_key:
  "length (Payload \<lparr>Payload = [1, 2, 3]\<rparr>) < NonceSize \<and>
   PeelOnion tagAEAD \<lparr>Payload = [1, 2, 3]\<rparr> short_key = Inl BadKeyLength \<and>
   PeelOnion tagAEAD \<lparr>Payload = [1, 2, 3]\<rparr> short_key \<noteq> Inl InvalidPayload \<and>
   PeelOnion tagAEAD \<lparr>Payload = [1, 2, 3]\<rparr> short_key \<noteq> Inl AuthFailed \<and>
   \<not> (\<exists>A. aead_correct A \<and> aead_overhead A \<and> wrong_key_rejected A)"
proof -
  have short: "PeelOnion tagAEAD \<lparr>Payload = [1, 2, 3]\<rparr> short_key = Inl BadKeyLength"
    by (simp add: PeelOnion_def short_key_def KeySize_def)
  have "\<not> wrong_key_rejected A" if c: "aead_correct A" and o: "aead_overhead A" for A
  proof
    assume w: "wrong_key_rejected A"
    have n: "length (replicate 12 (0::byte)) = NonceSize"
      by (simp add: NonceSize_def)
    from key_collision [OF o n] obtain key key'
      where k: "length key = KeySize" "length key' = KeySize" "key \<noteq> key'"
        and same: "Seal A key (replicate 12 0) [] [] = Seal A key' (replicate 12 0) [] []"
      by blast
    have "Open A key' (replicate 12 0) (Seal A key (replicate 12 0) [] []) [] = Some []"
      using c k(2) n unfolding same by (simp add: aead_correct_def)
    then have "PeelOnion A \<lparr>Payload = replicate 12 0 @ Seal A key (replicate 12 0) [] []\<rparr> key' = Inr []"
      using k(2) by (simp add: PeelOnion_def NonceSize_def)
    moreover have "PeelOnion A \<lparr>Payload = replicate 12 0 @ Seal A key (replicate 12 0) [] []\<rparr> key'
                     = Inl AuthFailed"
      using w k n unfolding wrong_key_rejected_def
      by (auto simp: CreateOnionPacket_def split: sum.splits)
    ultimately show False by simp
  qed
  with short show ?thesis
    by (auto simp: NonceSize_def)
qed

text \<open>
  Claim C4, amended: for every key and every packet, \<^verbatim>\<open>PeelOnion\<close> fails with the
  key-length error when the key is not 32 bytes; with a 32-byte key it fails with the
  malformed-packet error when the payload is shorter than the 12-byte nonce, fails with
  the authentication error when the AEAD does not open the rest of the payload under the
  nonce, and returns the plaintext when the AEAD opens it. It has no other failure and
  returns no plaintext but the one the AEAD opened. Peeling with a 32-byte key what was
  wrapped under another one fails with the authentication error exactly when the AEAD
  rejects the sealed text under the peeling key, and returns exactly what the AEAD
  opens otherwise.
\<close>

theorem peel_failure_modes:
  "(length key \<noteq> KeySize \<longrightarrow> PeelOnion A pkt key = Inl BadKeyLength) \<and>
   (length key = KeySize \<and> length (Payload pkt) < NonceSize \<longrightarrow>
      PeelOnion A pkt key = Inl InvalidPayload) \<and>
   (length key = KeySize \<and> NonceSize \<le> length (Payload pkt) \<and>
      Open A key (take NonceSize (Payload pkt)) (drop NonceSize (Payload pkt)) [] = None \<longrightarrow>
      PeelOnion A pkt key = Inl AuthFailed) \<and>
   (\<forall>plain. length key = KeySize \<and> NonceSize \<le> length (Payload pkt) \<and>
      Open A key (take NonceSize (Payload pkt)) (drop NonceSize (Payload pkt)) [] = Some plain \<longrightarrow>
      PeelOnion A pkt key = Inr plain) \<and>
   (\<forall>e. PeelOnion A pkt key = Inl e \<longrightarrow>
      e = BadKeyLength \<or> e = InvalidPayload \<or> e = AuthFailed) \<and>
   (\<forall>plain. PeelOnion A pkt key = Inr plain \<longrightarrow>
      length key = KeySize \<and> NonceSize \<le> length (Payload pkt) \<and>
      Open A key (take NonceSize (Payload pkt)) (drop NonceSize (Payload pkt)) [] = Some plain) \<and>
   (length key = KeySize \<and> length key' = KeySize \<and> length nonce = NonceSize \<longrightarrow>
      (\<exists>sealed. CreateOnionPacket A (Some nonce) plain key' = Inr sealed \<and>
         (PeelOnion A sealed key = Inl AuthFailed
            \<longleftrightarrow> Open A key nonce (Seal A key' nonce plain []) [] = None) \<and>
         (\<forall>out. PeelOnion A sealed key = Inr out
            \<longleftrightarrow> Open A key nonce (Seal A key' nonce plain []) [] = Some out)))"
  by (auto simp: PeelOnion_def CreateOnionPacket_def Let_def
      split: option.splits if_splits)


theorem peel_failure_modes_witness:
  "PeelOnion tagAEAD \<lparr>Payload = [1, 2, 3]\<rparr> short_key = Inl BadKeyLength \<and>
   PeelOnion tagAEAD \<lparr>Payload = [1, 2, 3]\<rparr> (replicate 32 1) = Inl InvalidPayload \<and>
   PeelOnion tagAEAD \<lparr>Payload = replicate 12 7 @ [72, 105] @ replicate 32 2\<rparr> (replicate 32 1)
     = Inl AuthFailed \<and>
   PeelOnion tagAEAD \<lparr>Payload = replicate 12 7 @ [72, 105] @ replicate 32 1\<rparr> (replicate 32 1)
     = Inr [72, 105] \<and>
   (\<exists>sealed. CreateOnionPacket tagAEAD (Some (replicate 12 7)) [72, 105] (replicate 32 2) = Inr sealed \<and>
            PeelOnion tagAEAD sealed (replicate 32 1) = Inl AuthFailed)"
proof -
  have ne: "replicate 32 (2::byte) \<noteq> replicate 32 1"
    by (simp add: replicate_eq_replicate)
  have 1: "PeelOnion tagAEAD \<lparr>Payload = [1, 2, 3]\<rparr> short_key = Inl BadKeyLength"
    using peel_failure_modes [of short_key tagAEAD "\<lparr>Payload = [1, 2, 3]\<rparr>", THEN conjunct1]
    by (simp add: KeySize_def short_key_def)
  have 2: "PeelOnion tagAEAD \<lparr>Payload = [1, 2, 3]\<rparr> (replicate 32 1) = Inl InvalidPayload"
    using peel_failure_modes [of "replicate 32 1" tagAEAD "\<lparr>Payload = [1, 2, 3]\<rparr>",
        THEN conjunct2, THEN conjunct1]
    by (simp add: KeySize_def NonceSize_def)
  have 3: "PeelOnion tagAEAD \<lparr>Payload = replicate 12 7 @ [72, 105] @ replicate 32 2\<rparr> (replicate 32 1)
             = Inl AuthFailed"
    using ne
      peel_failure_modes [of "replicate 32 1" tagAEAD
        "\<lparr>Payload = replicate 12 7 @ [72, 105] @ replicate 32 2\<rparr>",
        THEN conjunct2, THEN conjunct2, THEN conjunct1]
    by (simp add: KeySize_def NonceSize_def tagAEAD_def)
  have 4: "PeelOnion tagAEAD \<lparr>Payload = replicate 12 7 @ [72, 105] @ replicate 32 1\<rparr> (replicate 32 1)
             = Inr [72, 105]"
    using peel_failure_modes [of "replicate 32 1" tagAEAD
        "\<lparr>Payload = replicate 12 7 @ [72, 105] @ replicate 32 1\<rparr>",
        THEN conjunct2, THEN conjunct2, THEN conjunct2, THEN conjunct1, rule_format, of "[72, 105]"]
    by (simp add: KeySize_def NonceSize_def tagAEAD_def)
  have 5: "\<exists>sealed. CreateOnionPacket tagAEAD (Some (replicate 12 7)) [72, 105] (replicate 32 2) = Inr sealed \<and>
            PeelOnion tagAEAD sealed (replicate 32 1) = Inl AuthFailed"
  proof -
    have r: "Open tagAEAD (replicate 32 1) (replicate 12 7)
               (Seal tagAEAD (replicate 32 2) (replicate 12 7) [72, 105] []) [] = None"
      using ne by (simp add: tagAEAD_def)
    have l: "length (replicate 32 (1::byte)) = KeySize \<and> length (replicate 32 (2::byte)) = KeySize \<and>
             length (replicate 12 (7::byte)) = NonceSize"
      by (simp add: KeySize_def NonceSize_def)
    from peel_failure_modes [of "replicate 32 1" tagAEAD _ "replicate 32 2" "replicate 12 7" "[72, 105]",
        THEN conjunct2, THEN conjunct2, THEN conjunct2, THEN conjunct2, THEN conjunct2,
        THEN conjunct2, rule_format, OF l] r
    show ?thesis by blast
  qed
  from 1 2 3 4 5 show ?thesis
    by blast
qed

section \<open>The chunk assembler: completeness and validity of what is stored\<close>

lemma Validate_iff: "Validate c = None \<longleftrightarrow> chunk_valid c"
  by (auto simp: Validate_def chunk_valid_def)

lemma fcard_fmdom: "fcard (fmdom cs) = card (fmdom' cs)"
  by (simp add: fmdom'_alt_def fcard.rep_eq)

lemma seqsPresent_iff:
  "seqsPresent cs n i \<longleftrightarrow> {i..<n} \<subseteq> fmdom' cs"
proof (induction cs n i rule: seqsPresent.induct)
  case (1 cs n i)
  show ?case
  proof (cases "i < n")
    case True
    have split: "{i..<n} = insert i {i + 1..<n}" using True by auto
    show ?thesis
    proof (cases "fmlookup cs i")
      case None
      then have "i \<notin> fmdom' cs" by (simp add: fmdom'_notI)
      with True None show ?thesis by (subst seqsPresent.simps) (auto simp: split)
    next
      case (Some c)
      then have "i \<in> fmdom' cs" by (simp add: fmdom'I)
      with True Some "1.IH" show ?thesis
        by (subst seqsPresent.simps) (simp add: split)
    qed
  next
    case False
    then show ?thesis by (subst seqsPresent.simps) simp
  qed
qed

lemma IsComplete_char:
  assumes "fmlookup (chunks ca) mid = Some cs" "fmlookup cs first = Some c"
  shows "IsComplete ca first mid \<longleftrightarrow> 0 < Total c \<and> fmdom' cs = {0..<Total c}"
proof -
  have ne: "fcard (fmdom cs) \<noteq> 0"
    using assms(2) by (metis fcard_0_eq fmdom_notD fempty_iff option.distinct(1))
  have eq: "IsComplete ca first mid \<longleftrightarrow> int (card (fmdom' cs)) = Total c \<and> {0..<Total c} \<subseteq> fmdom' cs"
    using assms ne by (simp add: IsComplete_def Let_def seqsPresent_iff fcard_fmdom)
  show ?thesis
  proof
    assume "IsComplete ca first mid"
    with eq have c: "int (card (fmdom' cs)) = Total c" and s: "{0..<Total c} \<subseteq> fmdom' cs" by auto
    from ne have "0 < card (fmdom' cs)" by (simp add: fcard_fmdom card_gt_0_iff)
    with c have pos: "0 < Total c" by linarith
    have "card {0..<Total c} = card (fmdom' cs)" using c pos by simp
    with s have "{0..<Total c} = fmdom' cs" by (intro card_subset_eq) auto
    with pos show "0 < Total c \<and> fmdom' cs = {0..<Total c}" by simp
  next
    assume "0 < Total c \<and> fmdom' cs = {0..<Total c}"
    then show "IsComplete ca first mid" using eq by simp
  qed
qed
lemma mixed_totals_chunks:
  "chunks mixed_totals =
     fmupd ''m'' (fmupd 1 (NewChunk ''m'' 1 3 [2]) (fmupd 0 (NewChunk ''m'' 0 2 [1]) fmempty)) fmempty"
  by (simp add: mixed_totals_def AddChunk_def Validate_def NewChunk_def NewChunkAssembler_def)

lemma both_of_two_chunks:
  "chunks both_of_two =
     fmupd ''m'' (fmupd 0 (NewChunk ''m'' 0 2 [1]) (fmupd 1 (NewChunk ''m'' 1 2 [2]) fmempty)) fmempty"
  by (simp add: both_of_two_def AddChunk_def Validate_def NewChunk_def NewChunkAssembler_def)

lemma mirrored_totals_chunks:
  "chunks mirrored_totals =
     fmupd ''m'' (fmupd 1 (NewChunk ''m'' 1 2 [2]) (fmupd 0 (NewChunk ''m'' 0 3 [1]) fmempty)) fmempty"
  by (simp add: mirrored_totals_def AddChunk_def Validate_def NewChunk_def NewChunkAssembler_def)

lemma IsComplete_totals_agree:
  assumes "\<forall>c\<in>stored_chunks ca messageID. \<forall>c'\<in>stored_chunks ca messageID. Total c = Total c'"
    and "first \<in> stored_seqs ca messageID"
  shows "IsComplete ca first messageID \<longleftrightarrow>
           (\<exists>N>0. stored_seqs ca messageID = {0..<N} \<and>
                  (\<forall>c\<in>stored_chunks ca messageID. Total c = N))"
proof -
  from assms(2) obtain cs where cs: "fmlookup (chunks ca) messageID = Some cs"
    by (auto simp: stored_seqs_def split: option.splits)
  with assms(2) obtain c where c: "fmlookup cs first = Some c"
    by (auto simp: stored_seqs_def fmlookup_dom'_iff)
  then have mem: "c \<in> stored_chunks ca messageID"
    using cs by (auto simp: stored_chunks_def intro: fmran'I)
  have seqs: "stored_seqs ca messageID = fmdom' cs"
    by (simp add: stored_seqs_def cs)
  show ?thesis
  proof
    assume "IsComplete ca first messageID"
    with IsComplete_char [OF cs c] have "0 < Total c" "fmdom' cs = {0..<Total c}"
      by simp_all
    moreover have "\<forall>c'\<in>stored_chunks ca messageID. Total c' = Total c"
      using assms(1) mem by blast
    ultimately show "\<exists>N>0. stored_seqs ca messageID = {0..<N} \<and>
                  (\<forall>c\<in>stored_chunks ca messageID. Total c = N)"
      using seqs by blast
  next
    assume "\<exists>N>0. stored_seqs ca messageID = {0..<N} \<and>
                  (\<forall>c\<in>stored_chunks ca messageID. Total c = N)"
    then obtain N where "0 < N" "stored_seqs ca messageID = {0..<N}" "Total c = N"
      using mem by blast
    with IsComplete_char [OF cs c] seqs show "IsComplete ca first messageID"
      by simp
  qed
qed

text \<open>
  Claim C2 says that \<^verbatim>\<open>IsComplete\<close> is true if and only if, for some \<open>N > 0\<close>, the stored
  sequence numbers are exactly \<open>0..N-1\<close> and every stored chunk reports \<open>Total = N\<close>.
  \<^verbatim>\<open>IsComplete\<close> takes the total from whichever chunk the map iteration yields first and
  compares no two totals. With chunk 0 of 2 and chunk 1 of 3 stored for one message, it
  answers true when chunk 0 is yielded first, and \<^verbatim>\<open>Assemble\<close> then returns two bytes, and
  false when chunk 1 is yielded first. With chunk 0 of 3 and chunk 1 of 2 stored, it
  answers true when chunk 1 is yielded first, and \<^verbatim>\<open>Assemble\<close>, which reads the total of
  chunk 0, then dereferences the missing chunk 2. (When all stored chunks report one
  total the answer is the claim's, whatever the order: \<open>IsComplete_totals_agree\<close>.)
\<close>

theorem IsComplete_depends_on_iteration_order:
  "stored_seqs mixed_totals ''m'' = {0, 1} \<and>
   fmlookup (inner_chunks mixed_totals ''m'') 0 = Some (NewChunk ''m'' 0 2 [1]) \<and>
   fmlookup (inner_chunks mixed_totals ''m'') 1 = Some (NewChunk ''m'' 1 3 [2]) \<and>
   IsComplete mixed_totals 0 ''m'' \<and>
   \<not> IsComplete mixed_totals 1 ''m'' \<and>
   fst (Assemble mixed_totals 0 ''m'') = Inr [1, 2] \<and>
   IsComplete mirrored_totals 1 ''m'' \<and>
   \<not> IsComplete mirrored_totals 0 ''m'' \<and>
   Assemble mirrored_totals 1 ''m'' = (Inl PanicNilDereference, mirrored_totals)"
proof -
  have a: "stored_seqs mixed_totals ''m'' = {0, 1}"
    by (auto simp: stored_seqs_def mixed_totals_chunks)
  have b: "fmlookup (inner_chunks mixed_totals ''m'') 0 = Some (NewChunk ''m'' 0 2 [1])"
    "fmlookup (inner_chunks mixed_totals ''m'') 1 = Some (NewChunk ''m'' 1 3 [2])"
    by (simp_all add: inner_chunks_def mixed_totals_chunks)
  have c: "IsComplete mixed_totals 0 ''m''"
    by (simp add: IsComplete_def mixed_totals_chunks NewChunk_def fcard_finsert_if seqsPresent.simps)
  have d: "\<not> IsComplete mixed_totals 1 ''m''"
    by (simp add: IsComplete_def mixed_totals_chunks NewChunk_def fcard_finsert_if seqsPresent.simps)
  have e: "fst (Assemble mixed_totals 0 ''m'') = Inr [1, 2]"
    using c by (simp add: Assemble_def mixed_totals_chunks NewChunk_def assembleLoop.simps)
  have f: "IsComplete mirrored_totals 1 ''m''"
    by (simp add: IsComplete_def mirrored_totals_chunks NewChunk_def fcard_finsert_if seqsPresent.simps)
  have g: "\<not> IsComplete mirrored_totals 0 ''m''"
    by (simp add: IsComplete_def mirrored_totals_chunks NewChunk_def fcard_finsert_if seqsPresent.simps)
  have h: "Assemble mirrored_totals 1 ''m'' = (Inl PanicNilDereference, mirrored_totals)"
    using f by (simp add: Assemble_def mirrored_totals_chunks NewChunk_def assembleLoop.simps)
  from a b c d e f g h show ?thesis by blast
qed

lemma Assemble_state:
  "snd (Assemble ca first mid) = ca \<or> snd (Assemble ca first mid) = ca\<lparr>chunks := fmdrop mid (chunks ca)\<rparr>"
  by (simp add: Assemble_def split: option.splits sum.splits)
lemma AddChunk_valid:
  "Validate c = None \<Longrightarrow>
     AddChunk ca c =
       (None, ca\<lparr>chunks := fmupd (MessageID c) (fmupd (Seq c) c (inner_chunks ca (MessageID c))) (chunks ca)\<rparr>)"
  by (cases "fmlookup (chunks ca) (MessageID c)") (simp_all add: AddChunk_def Let_def inner_chunks_def)

lemma AddChunk_invalid:
  "Validate c = Some e \<Longrightarrow> AddChunk ca c = (Some e, ca)"
  by (simp add: AddChunk_def)

lemma inner_chunks_valid:
  "stored_valid ca \<Longrightarrow> fmpred (\<lambda>seq c. chunk_valid c) (inner_chunks ca mid)"
  by (cases "fmlookup (chunks ca) mid") (auto simp: stored_valid_def inner_chunks_def)

lemma AddChunk_stored_valid:
  assumes "stored_valid ca"
  shows "stored_valid (snd (AddChunk ca c))"
proof (cases "Validate c")
  case None
  then have "chunk_valid c" by (simp add: Validate_iff)
  with inner_chunks_valid [OF assms, of "MessageID c"]
  have "fmpred (\<lambda>seq c. chunk_valid c) (fmupd (Seq c) c (inner_chunks ca (MessageID c)))"
    by (rule fmpred_upd)
  with assms show ?thesis
    by (simp add: AddChunk_valid [OF None] stored_valid_def fmpred_upd)
next
  case (Some e)
  with assms show ?thesis by (simp add: AddChunk_invalid)
qed

lemma Assemble_stored_valid:
  assumes "stored_valid ca"
  shows "stored_valid (snd (Assemble ca first mid))"
proof -
  have "stored_valid (ca\<lparr>chunks := fmdrop mid (chunks ca)\<rparr>)"
    using assms by (simp add: stored_valid_def fmpred_drop)
  with assms Assemble_state [of ca first mid] show ?thesis by auto
qed

text \<open>
  Claim C10: \<^verbatim>\<open>Validate\<close> accepts exactly the chunks with non-empty MessageID,
  \<open>0 \<le> Seq < Total\<close>, \<open>Total > 0\<close> and non-empty Data; the fresh assembler stores only
  valid chunks; \<^verbatim>\<open>AddChunk\<close> rejects an invalid chunk with an error and returns the
  assembler unchanged, and stores a valid one; and if every stored chunk is valid before
  \<^verbatim>\<open>AddChunk\<close> or \<^verbatim>\<open>Assemble\<close>, every stored chunk is valid after it. (\<^verbatim>\<open>IsComplete\<close>
  only reads the assembler.)
\<close>

theorem stored_chunks_stay_valid:
  "(Validate c = None \<longleftrightarrow> chunk_valid c) \<and>
   stored_valid NewChunkAssembler \<and>
   (\<not> chunk_valid c \<longrightarrow> (\<exists>e. AddChunk ca c = (Some e, ca))) \<and>
   (chunk_valid c \<longrightarrow>
      fst (AddChunk ca c) = None \<and> c \<in> stored_chunks (snd (AddChunk ca c)) (MessageID c)) \<and>
   (stored_valid ca \<longrightarrow> stored_valid (snd (AddChunk ca c))) \<and>
   (stored_valid ca \<longrightarrow> stored_valid (snd (Assemble ca first messageID)))"
proof -
  have 1: "stored_valid NewChunkAssembler"
    by (simp add: stored_valid_def NewChunkAssembler_def)
  have 2: "\<exists>e. AddChunk ca c = (Some e, ca)" if "\<not> chunk_valid c"
  proof -
    from that obtain e where "Validate c = Some e"
      using Validate_iff [of c] by (cases "Validate c") auto
    then show ?thesis by (simp add: AddChunk_invalid)
  qed
  have 3: "fst (AddChunk ca c) = None \<and> c \<in> stored_chunks (snd (AddChunk ca c)) (MessageID c)"
    if "chunk_valid c"
  proof -
    from that have "Validate c = None" by (simp add: Validate_iff)
    then show ?thesis
      by (simp add: AddChunk_valid stored_chunks_def fmran'I [where x = "Seq c"])
  qed
  from 1 2 3 Validate_iff [of c] AddChunk_stored_valid [of ca c]
    Assemble_stored_valid [of ca first messageID]
  show ?thesis by blast
qed

theorem stored_chunks_stay_valid_witness:
  "\<not> chunk_valid (NewChunk [] 0 1 [1]) \<and>
   (\<exists>e. AddChunk both_of_two (NewChunk [] 0 1 [1]) = (Some e, both_of_two)) \<and>
   chunk_valid (NewChunk ''n'' 0 1 [9]) \<and>
   fst (AddChunk both_of_two (NewChunk ''n'' 0 1 [9])) = None \<and>
   stored_valid both_of_two \<and>
   stored_valid (snd (AddChunk both_of_two (NewChunk ''n'' 0 1 [9]))) \<and>
   stored_valid (snd (Assemble both_of_two 1 ''m''))"
proof -
  note t = stored_chunks_stay_valid
  have bad: "\<not> chunk_valid (NewChunk [] 0 1 [1])"
    by (simp add: chunk_valid_def NewChunk_def)
  have good: "chunk_valid (NewChunk ''n'' 0 1 [9])"
    by (simp add: chunk_valid_def NewChunk_def)
  have 1: "stored_valid (snd (AddChunk NewChunkAssembler (NewChunk ''m'' 1 2 [2])))"
    using t [of _ NewChunkAssembler] by blast
  have sv: "stored_valid both_of_two"
    unfolding both_of_two_def
    using 1 t [of "NewChunk ''m'' 0 2 [1]" "snd (AddChunk NewChunkAssembler (NewChunk ''m'' 1 2 [2]))"]
    by blast
  have 2: "\<exists>e. AddChunk both_of_two (NewChunk [] 0 1 [1]) = (Some e, both_of_two)"
    using bad t [of "NewChunk [] 0 1 [1]" both_of_two] by blast
  have 3: "fst (AddChunk both_of_two (NewChunk ''n'' 0 1 [9])) = None"
    using good t [of "NewChunk ''n'' 0 1 [9]" both_of_two] by blast
  have 4: "stored_valid (snd (AddChunk both_of_two (NewChunk ''n'' 0 1 [9])))"
    using sv t [of "NewChunk ''n'' 0 1 [9]" both_of_two] by blast
  have 5: "stored_valid (snd (Assemble both_of_two 1 ''m''))"
    using sv t [of _ both_of_two 1 "''m''"] by blast
  from bad good sv 2 3 4 5 show ?thesis by blast
qed

section \<open>The path builder\<close>

lemma selectNodes_done:
  "\<not> int (length sel) < pl \<Longrightarrow> selectNodes avail pl draws sel used = Some (Inr sel)"
  by (subst selectNodes.simps) simp

lemma selectNodes_Nil:
  "int (length sel) < pl \<Longrightarrow> selectNodes avail pl [] sel used = None"
  by (subst selectNodes.simps) simp

lemma selectNodes_None:
  "int (length sel) < pl \<Longrightarrow> selectNodes avail pl (None # rest) sel used = Some (Inl RandReadFailed)"
  by (subst selectNodes.simps) simp

lemma selectNodes_Some:
  "int (length sel) < pl \<Longrightarrow>
     selectNodes avail pl (Some i # rest) sel used =
       (if i \<notin> used
        then (if i < length avail
              then selectNodes avail pl rest (sel @ [avail ! i]) (insert i used)
              else Some (Inl PanicIndexOutOfRange))
        else selectNodes avail pl rest sel used)"
  by (subst selectNodes.simps) simp

lemma selectNodes_result:
  assumes "selectNodes avail pl draws sel used = Some (Inr sel')"
    and "sel = map ((!) avail) idxs" and "distinct idxs" and "set idxs = used"
    and "\<forall>i\<in>used. i < length avail" and "int (length sel) \<le> pl"
  shows "\<exists>idxs'. sel' = map ((!) avail) idxs' \<and> distinct idxs' \<and>
           (\<forall>i\<in>set idxs'. i < length avail) \<and> int (length sel') = pl"
  using assms
proof (induction draws arbitrary: sel used idxs)
  case Nil
  show ?case
  proof (cases "int (length sel) < pl")
    case True
    with Nil.prems(1) show ?thesis by (simp add: selectNodes_Nil)
  next
    case False
    with Nil.prems(1,6) have eq: "sel' = sel" and len: "int (length sel) = pl"
      by (simp_all add: selectNodes_done)
    have "sel' = map ((!) avail) idxs"
      using eq Nil.prems(2) by (simp only:)
    moreover have "int (length sel') = pl"
      using eq len by (simp only:)
    moreover have "\<forall>i\<in>set idxs. i < length avail"
      using Nil.prems(4,5) by (simp only:)
    ultimately show ?thesis
      using Nil.prems(3) by blast
  qed
next
  case (Cons d rest)
  show ?case
  proof (cases "int (length sel) < pl")
    case False
    with Cons.prems(1,6) have eq: "sel' = sel" and len: "int (length sel) = pl"
      by (simp_all add: selectNodes_done)
    have "sel' = map ((!) avail) idxs"
      using eq Cons.prems(2) by (simp only:)
    moreover have "int (length sel') = pl"
      using eq len by (simp only:)
    moreover have "\<forall>i\<in>set idxs. i < length avail"
      using Cons.prems(4,5) by (simp only:)
    ultimately show ?thesis
      using Cons.prems(3) by blast
  next
    case True
    show ?thesis
    proof (cases d)
      case None
      with True Cons.prems(1) show ?thesis by (simp add: selectNodes_None)
    next
      case (Some i)
      show ?thesis
      proof (cases "i \<in> used")
        case used: True
        with True Some Cons.prems(1)
        have "selectNodes avail pl rest sel used = Some (Inr sel')"
          by (simp add: selectNodes_Some)
        from Cons.IH [OF this Cons.prems(2-6)] show ?thesis .
      next
        case fresh: False
        with True Some Cons.prems(1) have lt: "i < length avail"
          by (auto simp: selectNodes_Some split: if_splits)
        with fresh True Some Cons.prems(1)
        have r: "selectNodes avail pl rest (sel @ [avail ! i]) (insert i used) = Some (Inr sel')"
          by (simp add: selectNodes_Some)
        have a: "sel @ [avail ! i] = map ((!) avail) (idxs @ [i])"
          using Cons.prems(2) by simp
        have b: "distinct (idxs @ [i])"
          using Cons.prems(3,4) fresh by simp
        have c: "set (idxs @ [i]) = insert i used"
          using Cons.prems(4) by simp
        have d: "\<forall>j\<in>insert i used. j < length avail"
          using Cons.prems(5) lt by simp
        have e: "int (length (sel @ [avail ! i])) \<le> pl"
          using True by simp
        from Cons.IH [OF r a b c d e] show ?thesis .
      qed
    qed
  qed
qed

lemma selectNodes_error:
  assumes "selectNodes avail pl draws sel used = Some (Inl e)"
  shows "e = RandReadFailed \<or> e = PanicIndexOutOfRange"
  using assms
proof (induction draws arbitrary: sel used)
  case Nil
  then show ?case
    by (cases "int (length sel) < pl") (simp_all add: selectNodes_Nil selectNodes_done)
next
  case (Cons d rest)
  show ?case
  proof (cases "int (length sel) < pl")
    case False
    with Cons.prems show ?thesis by (simp add: selectNodes_done)
  next
    case True
    show ?thesis
    proof (cases d)
      case None
      with True Cons.prems show ?thesis by (simp add: selectNodes_None)
    next
      case (Some i)
      with True Cons.prems Cons.IH show ?thesis
        by (auto simp: selectNodes_Some split: if_splits)
    qed
  qed
qed

lemma finite_drawn: "finite (drawn draws)"
proof -
  have "drawn draws \<subseteq> the ` set draws"
    by (force simp: drawn_def)
  then show ?thesis by (rule finite_subset) simp
qed

lemma drawn_Cons: "drawn (Some i # rest) = insert i (drawn rest)"
  by (auto simp: drawn_def)

lemma selectNodes_returns:
  assumes "\<forall>d\<in>set draws. \<exists>i. d = Some i \<and> i < length avail"
    and "pl \<le> int (length sel) + int (card (drawn draws - used))"
  shows "\<exists>sel'. selectNodes avail pl draws sel used = Some (Inr sel')"
  using assms
proof (induction draws arbitrary: sel used)
  case Nil
  then have "\<not> int (length sel) < pl" by (simp add: drawn_def)
  then show ?case by (simp add: selectNodes_done)
next
  case (Cons d rest)
  show ?case
  proof (cases "int (length sel) < pl")
    case False
    then show ?thesis by (simp add: selectNodes_done)
  next
    case True
    from Cons.prems(1) obtain i where d: "d = Some i" and lt: "i < length avail"
      by auto
    from Cons.prems(1) have rest: "\<forall>d\<in>set rest. \<exists>i. d = Some i \<and> i < length avail"
      by simp
    show ?thesis
    proof (cases "i \<in> used")
      case used: True
      then have "drawn (d # rest) - used = drawn rest - used"
        by (auto simp: d drawn_Cons)
      with Cons.prems(2) have "pl \<le> int (length sel) + int (card (drawn rest - used))"
        by simp
      from Cons.IH [OF rest this] used True d show ?thesis
        by (simp add: selectNodes_Some)
    next
      case fresh: False
      have "drawn (d # rest) - used \<subseteq> insert i (drawn rest - insert i used)"
        by (auto simp: d drawn_Cons)
      then have "card (drawn (d # rest) - used) \<le> card (insert i (drawn rest - insert i used))"
        by (intro card_mono) (simp_all add: finite_drawn)
      also have "\<dots> \<le> Suc (card (drawn rest - insert i used))"
        by (simp add: card_insert_if finite_drawn)
      finally have "pl \<le> int (length (sel @ [avail ! i])) + int (card (drawn rest - insert i used))"
        using Cons.prems(2) by simp
      from Cons.IH [OF rest this] fresh True d lt show ?thesis
        by (simp add: selectNodes_Some)
    qed
  qed
qed

lemma selectNodes_no_error:
  assumes "\<forall>d\<in>set draws. \<exists>i. d = Some i \<and> i < length avail"
  shows "selectNodes avail pl draws sel used \<noteq> Some (Inl e)"
  using assms
proof (induction draws arbitrary: sel used)
  case Nil
  then show ?case
    by (cases "int (length sel) < pl") (simp_all add: selectNodes_Nil selectNodes_done)
next
  case (Cons d rest)
  show ?case
  proof (cases "int (length sel) < pl")
    case False
    then show ?thesis by (simp add: selectNodes_done)
  next
    case True
    from Cons.prems obtain i where d: "d = Some i" and lt: "i < length avail"
      by auto
    from Cons.prems have "\<forall>d\<in>set rest. \<exists>i. d = Some i \<and> i < length avail"
      by simp
    from Cons.IH [OF this] True d lt show ?thesis
      by (simp add: selectNodes_Some)
  qed
qed

lemma draws_succeed_iff:
  "draws_succeed n draws \<longleftrightarrow> (\<forall>d\<in>set draws. \<exists>i. d = Some i \<and> i < n)"
  by (auto simp: draws_succeed_def list_all_iff split: option.splits)

lemma remaining_card:
  "distinct (availableNodes pb) \<Longrightarrow>
     length (remaining pb ex) = card (set (availableNodes pb) - set ex)"
proof -
  assume d: "distinct (availableNodes pb)"
  then have "distinct (remaining pb ex)" by (simp add: remaining_def)
  then have "length (remaining pb ex) = card (set (remaining pb ex))"
    by (simp add: distinct_card)
  moreover have "set (remaining pb ex) = set (availableNodes pb) - set ex"
    by (auto simp: remaining_def)
  ultimately show ?thesis by simp
qed

lemma BuildPathExcluding_short:
  "int (length (remaining pb ex)) < minPathLength pb \<Longrightarrow>
     BuildPathExcluding pb ex lo draws = Some (Inl NotEnoughNodesAfterExclusion)"
  by (simp add: BuildPathExcluding_def remaining_def Let_def)

lemma BuildPathExcluding_select:
  assumes "1 \<le> minPathLength pb" "minPathLength pb \<le> maxPathLength pb"
    and "minPathLength pb \<le> int (length (remaining pb ex))"
  shows "BuildPathExcluding pb ex (Some off) draws =
           (case selectNodes (remaining pb ex)
                   (min (minPathLength pb + int off) (int (length (remaining pb ex)))) draws [] {} of
              None \<Rightarrow> None
            | Some (Inl e) \<Rightarrow> Some (Inl e)
            | Some (Inr sel) \<Rightarrow> Some (NewPath sel))"
proof -
  have ne: "length (remaining pb ex) \<noteq> 0"
    using assms by auto
  have m: "(if minPathLength pb + int off > int (length (remaining pb ex))
            then int (length (remaining pb ex)) else minPathLength pb + int off)
           = min (minPathLength pb + int off) (int (length (remaining pb ex)))"
    by simp
  show ?thesis
    using assms ne
    by (simp add: BuildPathExcluding_def remaining_def [symmetric] Let_def NewPathBuilder_def
        BuildRandomPath_def m del: length_0_conv)
qed

text \<open>
  Claim C7: for a builder whose nodes have pairwise distinct IDs and whose bounds satisfy
  \<open>1 \<le> minPathLength \<le> maxPathLength\<close>, for every exclusion list, every length offset
  below \<open>maxPathLength - minPathLength + 1\<close> and every list of index draws:
  \<^verbatim>\<open>BuildPathExcluding\<close> fails with "not enough nodes after exclusion" if and only if
  fewer than \<open>minPathLength\<close> nodes remain, and when every draw succeeds this is its only
  failure; a path it returns has no duplicate, no excluded node, only available nodes,
  and a length from \<open>minPathLength\<close> to the smaller of \<open>maxPathLength\<close> and the number of
  remaining nodes; and it does return a path as soon as the draws name that many
  different indices.
\<close>

theorem BuildPathExcluding_paths:
  assumes "distinct (availableNodes pb)"
    and "1 \<le> minPathLength pb" and "minPathLength pb \<le> maxPathLength pb"
    and "int off < maxPathLength pb - minPathLength pb + 1"
  shows
    "(BuildPathExcluding pb ex (Some off) draws = Some (Inl NotEnoughNodesAfterExclusion)
        \<longleftrightarrow> int (card (set (availableNodes pb) - set ex)) < minPathLength pb) \<and>
     (draws_succeed (card (set (availableNodes pb) - set ex)) draws \<longrightarrow>
        ((\<exists>e. BuildPathExcluding pb ex (Some off) draws = Some (Inl e))
           \<longleftrightarrow> int (card (set (availableNodes pb) - set ex)) < minPathLength pb)) \<and>
     (\<forall>p. BuildPathExcluding pb ex (Some off) draws = Some (Inr p) \<longrightarrow>
        distinct (Nodes p) \<and> set (Nodes p) \<inter> set ex = {} \<and>
        set (Nodes p) \<subseteq> set (availableNodes pb) \<and>
        minPathLength pb \<le> int (length (Nodes p)) \<and>
        int (length (Nodes p)) \<le> min (maxPathLength pb) (int (card (set (availableNodes pb) - set ex)))) \<and>
     (minPathLength pb \<le> int (card (set (availableNodes pb) - set ex)) \<and>
      draws_succeed (card (set (availableNodes pb) - set ex)) draws \<and>
      min (maxPathLength pb) (int (card (set (availableNodes pb) - set ex))) \<le> int (card (drawn draws)) \<longrightarrow>
        (\<exists>p. BuildPathExcluding pb ex (Some off) draws = Some (Inr p)))"
proof -
  define F where "F = remaining pb ex"
  define n where "n = card (set (availableNodes pb) - set ex)"
  define pl where "pl = min (minPathLength pb + int off) (int n)"
  define R where "R = BuildPathExcluding pb ex (Some off) draws"
  have len: "length F = n"
    using assms(1) by (simp add: F_def n_def remaining_card)
  have setF: "set F = set (availableNodes pb) - set ex"
    by (auto simp: F_def remaining_def)
  have dF: "distinct F"
    using assms(1) by (simp add: F_def remaining_def)
  have short: "R = Some (Inl NotEnoughNodesAfterExclusion)" if "int n < minPathLength pb"
    using that len BuildPathExcluding_short [of pb ex "Some off" draws]
    by (simp add: F_def R_def)
  have sel: "R = (case selectNodes F pl draws [] {} of
                    None \<Rightarrow> None
                  | Some (Inl e) \<Rightarrow> Some (Inl e)
                  | Some (Inr sel) \<Rightarrow> Some (NewPath sel))"
    if "minPathLength pb \<le> int n"
    using that len assms(2,3) BuildPathExcluding_select [of pb ex off draws]
    by (simp add: F_def R_def pl_def)
  have plb: "minPathLength pb \<le> pl" "pl \<le> maxPathLength pb" "pl \<le> int n"
    if "minPathLength pb \<le> int n"
    using that assms(4) by (simp_all add: pl_def)
  have chosen: "distinct s \<and> set s \<subseteq> set F \<and> int (length s) = pl"
    if ge: "minPathLength pb \<le> int n" and s: "selectNodes F pl draws [] {} = Some (Inr s)" for s
  proof -
    have "\<exists>idxs'. s = map ((!) F) idxs' \<and> distinct idxs' \<and>
           (\<forall>i\<in>set idxs'. i < length F) \<and> int (length s) = pl"
      using plb(1) [OF ge] assms(2)
      by (intro selectNodes_result [OF s, of "[]"]) simp_all
    then obtain idxs where i: "s = map ((!) F) idxs" "distinct idxs"
      "\<forall>i\<in>set idxs. i < length F" "int (length s) = pl"
      by blast
    have "inj_on ((!) F) (set idxs)"
      using dF i(3) by (auto simp: inj_on_def nth_eq_iff_index_eq)
    with i have "distinct s" by (simp add: distinct_map)
    moreover have "set s \<subseteq> set F" using i(1,3) by auto
    ultimately show ?thesis using i(4) by simp
  qed
  have built: "NewPath s = Inr \<lparr>Nodes = s\<rparr>"
    if ge: "minPathLength pb \<le> int n" and s: "selectNodes F pl draws [] {} = Some (Inr s)" for s
  proof -
    from chosen [OF ge s] plb(1) [OF ge] assms(2) have "length s \<noteq> 0" by auto
    then show ?thesis by (simp add: NewPath_def)
  qed
  have errs: "e = RandReadFailed \<or> e = PanicIndexOutOfRange"
    if ge: "minPathLength pb \<le> int n" and r: "R = Some (Inl e)" for e
  proof (cases "selectNodes F pl draws [] {}")
    case None
    with sel [OF ge] r show ?thesis by simp
  next
    case (Some res)
    show ?thesis
    proof (cases res)
      case (Inl e')
      with Some sel [OF ge] r have "selectNodes F pl draws [] {} = Some (Inl e)" by simp
      then show ?thesis by (rule selectNodes_error)
    next
      case (Inr s)
      with Some sel [OF ge] r built [OF ge] show ?thesis by simp
    qed
  qed
  have path: "distinct (Nodes p) \<and> set (Nodes p) \<inter> set ex = {} \<and>
        set (Nodes p) \<subseteq> set (availableNodes pb) \<and>
        minPathLength pb \<le> int (length (Nodes p)) \<and>
        int (length (Nodes p)) \<le> min (maxPathLength pb) (int n)"
    if r: "R = Some (Inr p)" for p
  proof -
    have ge: "minPathLength pb \<le> int n"
    proof (rule ccontr)
      assume "\<not> minPathLength pb \<le> int n"
      then have "R = Some (Inl NotEnoughNodesAfterExclusion)" using short by simp
      with r show False by simp
    qed
    from sel [OF ge] r obtain s where s: "selectNodes F pl draws [] {} = Some (Inr s)"
      and np: "NewPath s = Inr p"
      by (auto split: option.splits sum.splits)
    from np built [OF ge s] have p: "Nodes p = s" by auto
    show ?thesis
      using chosen [OF ge s] plb [OF ge] setF p by auto
  qed
  have noerr: "int n < minPathLength pb" if r: "R = Some (Inl e)" and ok: "draws_succeed n draws" for e
  proof (rule ccontr)
    assume "\<not> int n < minPathLength pb"
    then have ge: "minPathLength pb \<le> int n" by simp
    have d: "\<forall>d\<in>set draws. \<exists>i. d = Some i \<and> i < length F"
      using ok len by (simp add: draws_succeed_iff)
    show False
    proof (cases "selectNodes F pl draws [] {}")
      case None
      with sel [OF ge] r show ?thesis by simp
    next
      case (Some res)
      show ?thesis
      proof (cases res)
        case (Inl e')
        with Some selectNodes_no_error [OF d, of pl "[]" "{}" e'] show ?thesis by simp
      next
        case (Inr s)
        with Some sel [OF ge] r built [OF ge] show ?thesis by simp
      qed
    qed
  qed
  have returns: "\<exists>p. R = Some (Inr p)"
    if ge: "minPathLength pb \<le> int n" and ok: "draws_succeed n draws"
      and enough: "min (maxPathLength pb) (int n) \<le> int (card (drawn draws))"
  proof -
    have d: "\<forall>d\<in>set draws. \<exists>i. d = Some i \<and> i < length F"
      using ok len by (simp add: draws_succeed_iff)
    have "pl \<le> int (length ([]::string list)) + int (card (drawn draws - {}))"
      using plb(2,3) [OF ge] enough by simp
    from selectNodes_returns [OF d this] obtain s
      where s: "selectNodes F pl draws [] {} = Some (Inr s)" by blast
    with sel [OF ge] built [OF ge s] show ?thesis by simp
  qed
  have iff1: "R = Some (Inl NotEnoughNodesAfterExclusion) \<longleftrightarrow> int n < minPathLength pb"
  proof
    assume r: "R = Some (Inl NotEnoughNodesAfterExclusion)"
    show "int n < minPathLength pb"
    proof (rule ccontr)
      assume "\<not> int n < minPathLength pb"
      then have "minPathLength pb \<le> int n" by simp
      from errs [OF this r] show False by simp
    qed
  next
    assume "int n < minPathLength pb"
    then show "R = Some (Inl NotEnoughNodesAfterExclusion)" by (rule short)
  qed
  have iff2: "(\<exists>e. R = Some (Inl e)) \<longleftrightarrow> int n < minPathLength pb" if "draws_succeed n draws"
    using noerr [OF _ that] short by blast
  from iff1 iff2 path returns show ?thesis
    unfolding R_def n_def by blast
qed

lemma ten_nodes_distinct: "distinct (availableNodes ten_nodes)"
  by (simp add: ten_nodes_def)

lemma ten_nodes_remaining:
  "card (set (availableNodes ten_nodes) - set three_excluded) = 7"
  "card (set (availableNodes ten_nodes) - set nine_excluded) = 1"
  by (simp_all add: remaining_card [OF ten_nodes_distinct, symmetric] remaining_def
      ten_nodes_def three_excluded_def nine_excluded_def)

lemma four_draws_drawn: "card (drawn four_draws) = 4"
proof -
  have "drawn four_draws = {4, 0, 6, 2}"
    by (auto simp: drawn_def four_draws_def)
  then show ?thesis by simp
qed

lemma four_draws_path:
  "BuildPathExcluding ten_nodes three_excluded (Some 1) four_draws =
     Some (Inr \<lparr>Nodes = [''n7'', ''n3'', ''n9'']\<rparr>)"
  by (simp add: BuildPathExcluding_def BuildRandomPath_def NewPathBuilder_def NewPath_def
      ten_nodes_def three_excluded_def four_draws_def selectNodes.simps)

theorem BuildPathExcluding_paths_witness:
  "BuildPathExcluding ten_nodes nine_excluded (Some 1) four_draws
     = Some (Inl NotEnoughNodesAfterExclusion) \<and>
   BuildPathExcluding ten_nodes three_excluded (Some 1) four_draws
     = Some (Inr \<lparr>Nodes = [''n7'', ''n3'', ''n9'']\<rparr>) \<and>
   distinct [''n7'', ''n3'', ''n9''] \<and>
   set [''n7'', ''n3'', ''n9''] \<inter> set three_excluded = {} \<and>
   \<not> (\<exists>e. BuildPathExcluding ten_nodes three_excluded (Some 1) four_draws = Some (Inl e)) \<and>
   (\<exists>p. BuildPathExcluding ten_nodes three_excluded (Some 2) four_draws = Some (Inr p))"
proof -
  have b: "1 \<le> minPathLength ten_nodes" "minPathLength ten_nodes \<le> maxPathLength ten_nodes"
    "int 1 < maxPathLength ten_nodes - minPathLength ten_nodes + 1"
    "int 2 < maxPathLength ten_nodes - minPathLength ten_nodes + 1"
    by (simp_all add: ten_nodes_def)
  have ok: "draws_succeed 7 four_draws"
    by (simp add: draws_succeed_def four_draws_def)
  note t1 = BuildPathExcluding_paths [OF ten_nodes_distinct b(1,2,3)]
  note t2 = BuildPathExcluding_paths [OF ten_nodes_distinct b(1,2,4)]
  have 1: "BuildPathExcluding ten_nodes nine_excluded (Some 1) four_draws
     = Some (Inl NotEnoughNodesAfterExclusion)"
    using t1 [of nine_excluded four_draws, THEN conjunct1]
    by (simp add: ten_nodes_remaining) (simp add: ten_nodes_def)
  have 2: "distinct [''n7'', ''n3'', ''n9''] \<and> set [''n7'', ''n3'', ''n9''] \<inter> set three_excluded = {}"
    using t1 [of three_excluded four_draws, THEN conjunct2, THEN conjunct2, THEN conjunct1,
        rule_format, OF four_draws_path]
    by simp
  have 3: "\<not> (\<exists>e. BuildPathExcluding ten_nodes three_excluded (Some 1) four_draws = Some (Inl e))"
    using t1 [of three_excluded four_draws, THEN conjunct2, THEN conjunct1] ok
    by (simp add: ten_nodes_remaining) (simp add: ten_nodes_def)
  have 4: "\<exists>p. BuildPathExcluding ten_nodes three_excluded (Some 2) four_draws = Some (Inr p)"
    using t2 [of three_excluded four_draws, THEN conjunct2, THEN conjunct2, THEN conjunct2] ok
    by (simp add: ten_nodes_remaining four_draws_drawn) (simp add: ten_nodes_def)
  from 1 2 3 4 four_draws_path show ?thesis by blast
qed

section \<open>Splitting and reassembly\<close>

lemma int64_id: "in_int64 x \<Longrightarrow> int64 x = x"
  unfolding in_int64_def int64_def
  by (simp add: signed_take_bit_int_eq_self)

lemma go_div_nonneg: "0 \<le> a \<Longrightarrow> 0 < b \<Longrightarrow> go_div a b = a div b"
  by (cases "a = 0") (simp_all add: go_div_def)

lemma chunk_count_pos:
  assumes "0 < cs" "data \<noteq> []"
  shows "0 < chunk_count data cs"
proof -
  have "cs \<le> int (length data) + cs - 1" using assms by (cases data) auto
  then have "cs div cs \<le> (int (length data) + cs - 1) div cs"
    by (rule zdiv_mono1) (use assms in simp)
  with assms show ?thesis by (simp add: chunk_count_def)
qed

lemma chunk_start_in_data:
  assumes "0 < cs" "0 \<le> j" "j < chunk_count data cs"
  shows "j * cs < int (length data)"
proof -
  have "j + 1 \<le> (int (length data) + cs - 1) div cs"
    using assms by (simp add: chunk_count_def)
  then have "(j + 1) * cs \<le> ((int (length data) + cs - 1) div cs) * cs"
    using assms(1) by (simp add: mult_right_mono)
  also have "\<dots> \<le> int (length data) + cs - 1"
  proof -
    define a where "a = int (length data) + cs - 1"
    have "a = (a div cs) * cs + a mod cs" by simp
    moreover have "0 \<le> a mod cs" using assms(1) by simp
    ultimately have "(a div cs) * cs \<le> a" by linarith
    then show ?thesis by (simp add: a_def)
  qed
  finally show ?thesis by (simp add: algebra_simps)
qed

lemma chunk_count_covers:
  assumes "0 < cs"
  shows "int (length data) \<le> chunk_count data cs * cs"
proof -
  define a where "a = int (length data) + cs - 1"
  have "a = (a div cs) * cs + a mod cs" by simp
  moreover have "a mod cs < cs" using assms by simp
  ultimately have "a < (a div cs) * cs + cs" by linarith
  then show ?thesis by (simp add: a_def chunk_count_def)
qed

lemma splitLoop_chunks:
  assumes "0 < cs" "int (length data) + cs - 1 < 2 ^ 63" "0 \<le> i" "n = chunk_count data cs"
  shows "splitLoop mid data cs n i acc = Inr (acc @ map (chunk_at mid data cs n) [i..n - 1])"
  using assms(3)
proof (induction "nat (n - i)" arbitrary: i acc)
  case 0
  then have "\<not> i < n" by simp
  then show ?case by (subst splitLoop.simps) simp
next
  case (Suc k)
  then have lt: "i < n" by linarith
  have s: "i * cs < int (length data)"
    using chunk_start_in_data [OF assms(1) Suc.prems] lt assms(4) by simp
  have s0: "0 \<le> i * cs" using Suc.prems assms(1) by simp
  have i1: "in_int64 (i * cs)"
    using s s0 assms(2) assms(1) by (simp add: in_int64_def)
  have i2: "in_int64 (i * cs + cs)"
    using s s0 assms(2) assms(1) by (simp add: in_int64_def)
  have sl: "take (nat ((if i * cs + cs > int (length data) then int (length data) else i * cs + cs) - i * cs))
              (drop (nat (i * cs)) data) = take (nat cs) (drop (nat (i * cs)) data)"
  proof (cases "i * cs + cs > int (length data)")
    case True
    have "length (drop (nat (i * cs)) data) = nat (int (length data) - i * cs)"
      using s0 by (simp add: nat_diff_distrib)
    moreover have "nat (int (length data) - i * cs) \<le> nat cs"
      using True by simp
    ultimately show ?thesis using True by simp
  next
    case False
    then show ?thesis by simp
  qed
  have k: "k = nat (n - (i + 1))" using Suc.hyps(2) by linarith
  have "splitLoop mid data cs n i acc =
          splitLoop mid data cs n (i + 1) (acc @ [chunk_at mid data cs n i])"
    using lt s s0 assms(1) sl
    by (subst splitLoop.simps) (simp add: int64_id [OF i1] int64_id [OF i2] Let_def chunk_at_def)
  also have "\<dots> = Inr ((acc @ [chunk_at mid data cs n i]) @ map (chunk_at mid data cs n) [i + 1..n - 1])"
    using Suc.prems by (intro Suc.hyps(1) [OF k]) simp
  also have "\<dots> = Inr (acc @ map (chunk_at mid data cs n) [i..n - 1])"
    using lt by (simp add: upto_rec1 [of i "n - 1"])
  finally show ?case .
qed

lemma SplitMessage_chunks:
  assumes "0 < cs" "data \<noteq> []" "int (length data) + cs - 1 < 2 ^ 63"
  shows "SplitMessage mid data cs =
           Inr (map (chunk_at mid data cs (chunk_count data cs)) [0..chunk_count data cs - 1])"
proof -
  have l: "0 < int (length data)" using assms(2) by (cases data) auto
  have b: "in_int64 (int (length data) + cs - 1)"
    using assms l by (simp add: in_int64_def)
  have "int64 (int64 (int (length data) + cs) - 1) = int64 (int (length data) + cs - 1)"
    unfolding int64_def
    using signed_take_bit_diff [of 63 "int (length data) + cs" 1] by simp
  then have a: "int64 (int64 (int (length data) + cs) - 1) = int (length data) + cs - 1"
    by (simp add: int64_id [OF b])
  have t: "go_div (int (length data) + cs - 1) cs = chunk_count data cs"
    using assms(1) l by (simp add: go_div_nonneg chunk_count_def)
  have p: "\<not> chunk_count data cs < 0"
    using chunk_count_pos [OF assms(1,2)] by simp
  show ?thesis
    using assms(1,2) p splitLoop_chunks [OF assms(1,3), of 0 "chunk_count data cs" mid "[]"]
    by (simp add: SplitMessage_def a t Let_def)
qed

lemma chunk_at_fields [simp]:
  "MessageID (chunk_at mid data cs n j) = mid"
  "Seq (chunk_at mid data cs n j) = j"
  "Total (chunk_at mid data cs n j) = n"
  "Data (chunk_at mid data cs n j) = take (nat cs) (drop (nat (j * cs)) data)"
  by (simp_all add: chunk_at_def NewChunk_def)

lemma chunk_at_valid:
  assumes "mid \<noteq> []" "0 < cs" "0 \<le> j" "j < chunk_count data cs"
  shows "chunk_valid (chunk_at mid data cs (chunk_count data cs) j)"
proof -
  have "j * cs < int (length data)"
    using chunk_start_in_data [OF assms(2,3,4)] .
  moreover have "0 \<le> j * cs" using assms(2,3) by simp
  ultimately have "nat (j * cs) < length data" by linarith
  then have "drop (nat (j * cs)) data \<noteq> []" by simp
  moreover have "0 < nat cs" using assms(2) by simp
  ultimately have "take (nat cs) (drop (nat (j * cs)) data) \<noteq> []"
    by (cases "drop (nat (j * cs)) data"; cases "nat cs") simp_all
  with assms show ?thesis by (simp add: chunk_valid_def)
qed

lemma store_all_simps [simp]:
  "store_all [] m = m"
  "store_all (c # cs) m = store_all cs (fmupd (Seq c) c m)"
  by (simp_all add: store_all_def)

lemma inner_chunks_AddChunk:
  "Validate c = None \<Longrightarrow>
     inner_chunks (snd (AddChunk ca c)) mid =
       (if mid = MessageID c then fmupd (Seq c) c (inner_chunks ca mid) else inner_chunks ca mid)"
  by (simp add: AddChunk_valid inner_chunks_def)

lemma addChunks_valid:
  assumes "\<forall>c\<in>set cs. chunk_valid c \<and> MessageID c = mid"
  shows "addChunks ca cs =
           (None, ca\<lparr>chunks := (if cs = [] then chunks ca
                                  else fmupd mid (store_all cs (inner_chunks ca mid)) (chunks ca))\<rparr>)"
  using assms
proof (induction cs arbitrary: ca)
  case Nil
  then show ?case by simp
next
  case (Cons c cs)
  then have v: "Validate c = None" and m: "MessageID c = mid"
    by (simp_all add: Validate_iff)
  define ca' where
    "ca' = ca\<lparr>chunks := fmupd mid (fmupd (Seq c) c (inner_chunks ca mid)) (chunks ca)\<rparr>"
  have step: "AddChunk ca c = (None, ca')"
    using v m by (simp add: AddChunk_valid ca'_def)
  have inner: "inner_chunks ca' mid = fmupd (Seq c) c (inner_chunks ca mid)"
    by (simp add: ca'_def inner_chunks_def)
  have "addChunks ca (c # cs) = addChunks ca' cs"
    by (simp add: step)
  also have "\<dots> = (None, ca'\<lparr>chunks := (if cs = [] then chunks ca'
                                  else fmupd mid (store_all cs (inner_chunks ca' mid)) (chunks ca'))\<rparr>)"
    using Cons.prems by (intro Cons.IH) simp
  also have "\<dots> = (None, ca\<lparr>chunks := fmupd mid (store_all (c # cs) (inner_chunks ca mid)) (chunks ca)\<rparr>)"
    by (simp add: inner) (simp add: ca'_def)
  finally show ?case by simp
qed

lemma store_all_other:
  "k \<notin> Seq ` set cs \<Longrightarrow> fmlookup (store_all cs m) k = fmlookup m k"
  by (induction cs arbitrary: m) auto

lemma store_all_lookup:
  "distinct (map Seq cs) \<Longrightarrow> c \<in> set cs \<Longrightarrow> fmlookup (store_all cs m) (Seq c) = Some c"
proof (induction cs arbitrary: m)
  case Nil
  then show ?case by simp
next
  case (Cons x xs)
  show ?case
  proof (cases "c = x")
    case True
    with Cons.prems(1) show ?thesis by (simp add: store_all_other)
  next
    case False
    with Cons.prems show ?thesis by (auto intro: Cons.IH)
  qed
qed

lemma store_all_dom:
  "fmdom' (store_all cs m) = fmdom' m \<union> Seq ` set cs"
  by (induction cs arbitrary: m) auto

lemma assembleLoop_all:
  assumes "\<forall>j. i \<le> j \<and> j < n \<longrightarrow> fmlookup cs j = Some (f j)"
  shows "assembleLoop cs n i acc = Inr (acc @ concat (map (\<lambda>j. Data (f j)) [i..n - 1]))"
  using assms
proof (induction "nat (n - i)" arbitrary: i acc)
  case 0
  then have "\<not> i < n" by simp
  then show ?case by (subst assembleLoop.simps) simp
next
  case (Suc k)
  then have lt: "i < n" by linarith
  have k: "k = nat (n - (i + 1))" using Suc.hyps(2) by linarith
  have here: "fmlookup cs i = Some (f i)" using Suc.prems lt by simp
  have "assembleLoop cs n i acc = assembleLoop cs n (i + 1) (acc @ Data (f i))"
    using lt here by (subst assembleLoop.simps) simp
  also have "\<dots> = Inr ((acc @ Data (f i)) @ concat (map (\<lambda>j. Data (f j)) [i + 1..n - 1]))"
    using Suc.prems by (intro Suc.hyps(1) [OF k]) simp
  also have "\<dots> = Inr (acc @ concat (map (\<lambda>j. Data (f j)) [i..n - 1]))"
    using lt by (simp add: upto_rec1 [of i "n - 1"])
  finally show ?case .
qed

lemma concat_slices:
  assumes "0 < cs" "0 \<le> i"
  shows "concat (map (\<lambda>j. take (nat cs) (drop (nat (j * cs)) data)) [i..n - 1]) =
           take (nat ((n - i) * cs)) (drop (nat (i * cs)) data)"
  using assms(2)
proof (induction "nat (n - i)" arbitrary: i)
  case 0
  then have "n - i \<le> 0" by simp
  then have "(n - i) * cs \<le> 0" using assms(1) by (simp add: mult_le_0_iff)
  with 0 show ?case by simp
next
  case (Suc k)
  then have lt: "i < n" by linarith
  have k: "k = nat (n - (i + 1))" using Suc.hyps(2) by linarith
  have ih: "concat (map (\<lambda>j. take (nat cs) (drop (nat (j * cs)) data)) [i + 1..n - 1]) =
           take (nat ((n - (i + 1)) * cs)) (drop (nat ((i + 1) * cs)) data)"
    using Suc.prems by (intro Suc.hyps(1) [OF k]) simp
  have a: "nat ((n - i) * cs) = nat cs + nat ((n - (i + 1)) * cs)"
  proof -
    have "(n - i) * cs = cs + (n - (i + 1)) * cs" by (simp add: algebra_simps)
    moreover have "0 \<le> (n - (i + 1)) * cs" using lt assms(1) by simp
    ultimately show ?thesis using assms(1) by (simp add: nat_add_distrib)
  qed
  have b: "nat ((i + 1) * cs) = nat cs + nat (i * cs)"
  proof -
    have "(i + 1) * cs = cs + i * cs" by (simp add: algebra_simps)
    moreover have "0 \<le> i * cs" using Suc.prems assms(1) by simp
    ultimately show ?thesis using assms(1) by (simp add: nat_add_distrib)
  qed
  show ?case
    using lt by (simp add: upto_rec1 [of i "n - 1"] ih a b take_add)
qed

lemma concat_chunks:
  assumes "0 < cs"
  shows "concat (map (\<lambda>j. Data (chunk_at mid data cs n j)) [0..chunk_count data cs - 1]) = data"
proof -
  have "nat (int (length data)) \<le> nat (chunk_count data cs * cs)"
    using chunk_count_covers [OF assms, of data] by (intro nat_mono)
  then show ?thesis
    using concat_slices [OF assms, of 0 data "chunk_count data cs"] by simp
qed

lemma SplitMessage_in_range:
  assumes "int (length data) + cs - 1 < 2 ^ 63"
  shows "(cs \<le> 0 \<longrightarrow> SplitMessage mid data cs = Inl ChunkSizeNotPositive) \<and>
         (0 < cs \<and> data = [] \<longrightarrow> SplitMessage mid data cs = Inl EmptyData) \<and>
         (0 < cs \<and> data \<noteq> [] \<longrightarrow>
            (\<exists>parts. SplitMessage mid data cs = Inr parts \<and>
               int (length parts) = chunk_count data cs \<and>
               (\<forall>j<length parts.
                  MessageID (parts ! j) = mid \<and> Seq (parts ! j) = int j \<and>
                  Total (parts ! j) = chunk_count data cs \<and>
                  Data (parts ! j) = take (nat cs) (drop (j * nat cs) data))))"
proof (intro conjI impI)
  assume "cs \<le> 0"
  then show "SplitMessage mid data cs = Inl ChunkSizeNotPositive"
    by (simp add: SplitMessage_def)
next
  assume "0 < cs \<and> data = []"
  then show "SplitMessage mid data cs = Inl EmptyData"
    by (simp add: SplitMessage_def)
next
  assume h: "0 < cs \<and> data \<noteq> []"
  define n where "n = chunk_count data cs"
  define parts where "parts = map (chunk_at mid data cs n) [0..n - 1]"
  have npos: "0 < n"
    using chunk_count_pos [of cs data] h by (simp add: n_def)
  have s: "SplitMessage mid data cs = Inr parts"
    using SplitMessage_chunks [of cs data mid] h assms by (simp add: parts_def n_def)
  have l: "int (length parts) = n"
    using npos by (simp add: parts_def)
  have "MessageID (parts ! j) = mid \<and> Seq (parts ! j) = int j \<and> Total (parts ! j) = n \<and>
        Data (parts ! j) = take (nat cs) (drop (j * nat cs) data)" if "j < length parts" for j
  proof -
    have "int j \<le> n - 1" using that l by simp
    then have "parts ! j = chunk_at mid data cs n (int j)"
      using that by (simp add: parts_def)
    moreover have "nat (int j * cs) = j * nat cs"
      using h by (simp add: nat_mult_distrib)
    ultimately show ?thesis by simp
  qed
  with s l show "\<exists>parts. SplitMessage mid data cs = Inr parts \<and>
               int (length parts) = chunk_count data cs \<and>
               (\<forall>j<length parts.
                  MessageID (parts ! j) = mid \<and> Seq (parts ! j) = int j \<and>
                  Total (parts ! j) = chunk_count data cs \<and>
                  Data (parts ! j) = take (nat cs) (drop (j * nat cs) data))"
    unfolding n_def by blast
qed

text \<open>
  Claim C6 says that for every non-empty data and every \<open>chunkSize > 0\<close>, \<^verbatim>\<open>SplitMessage\<close>
  returns the \<open>\<lceil>|data| / chunkSize\<rceil>\<close> chunks and fails only for \<open>chunkSize \<le> 0\<close> or
  empty data. The count is computed as \<^verbatim>\<open>(len(data) + chunkSize - 1) / chunkSize\<close> in
  64-bit arithmetic. For two bytes and \<open>chunkSize = 2^63 - 1\<close> the sum wraps to \<open>-2^63\<close>,
  the count is \<open>-1\<close>, and \<^verbatim>\<open>make([]*Chunk, 0, total)\<close> panics, where the claim has one
  chunk holding the two bytes; for one byte and the same \<open>chunkSize\<close> the sum does not wrap and
  the one chunk is returned. (\<open>SplitMessage_in_range\<close> above is the claim for the inputs
  whose sum \<open>len(data) + chunkSize - 1\<close> stays below \<open>2^63\<close>.)
\<close>

theorem SplitMessage_overflow:
  "SplitMessage ''m'' [1, 2] 9223372036854775807 = Inl PanicMakesliceCap \<and>
   SplitMessage ''m'' [1] 9223372036854775807 = Inr [NewChunk ''m'' 0 1 [1]]"
proof -
  have "SplitMessage ''m'' [1, 2] 9223372036854775807 = Inl PanicMakesliceCap"
    by (simp add: SplitMessage_def int64_def go_div_def signed_take_bit_eq_take_bit_minus)
  moreover have "SplitMessage ''m'' [1] 9223372036854775807 = Inr [NewChunk ''m'' 0 1 [1]]"
    using SplitMessage_chunks [of 9223372036854775807 "[1]" "''m''"]
    by (simp add: chunk_count_def chunk_at_def)
  ultimately show ?thesis by blast
qed

text \<open>
  Claim C5 says that for every non-empty data and every \<open>chunkSize > 0\<close>, splitting,
  adding the chunks in any order and assembling returns the data. \<^verbatim>\<open>SplitMessage\<close> accepts
  any message ID, and \<^verbatim>\<open>AddChunk\<close> rejects a chunk whose message ID is empty: for the
  empty message ID the one chunk of a one-byte message is refused and nothing can be
  assembled.
\<close>

theorem split_empty_message_id:
  "SplitMessage [] [1] 1 = Inr [NewChunk [] 0 1 [1]] \<and>
   addChunks NewChunkAssembler [NewChunk [] 0 1 [1]] = (Some EmptyMessageID, NewChunkAssembler) \<and>
   Assemble NewChunkAssembler 0 [] = (Inl MessageNotComplete, NewChunkAssembler)"
proof -
  have "SplitMessage [] [1] 1 = Inr [NewChunk [] 0 1 [1]]"
    using SplitMessage_chunks [of 1 "[1]" "[]"]
    by (simp add: chunk_count_def chunk_at_def)
  moreover have "addChunks NewChunkAssembler [NewChunk [] 0 1 [1]] = (Some EmptyMessageID, NewChunkAssembler)"
    by (simp add: AddChunk_def Validate_def NewChunk_def)
  moreover have "Assemble NewChunkAssembler 0 [] = (Inl MessageNotComplete, NewChunkAssembler)"
    by (simp add: Assemble_def IsComplete_def NewChunkAssembler_def)
  ultimately show ?thesis by blast
qed

text \<open>
  Claim C5, amended: for every non-empty message ID, every non-empty data and every
  \<open>chunkSize > 0\<close> with \<open>len(data) + chunkSize - 1 < 2^63\<close>, \<^verbatim>\<open>SplitMessage\<close> returns
  chunks such that, for every permutation of them, adding the chunks in that order to a
  fresh assembler succeeds, the stored sequence numbers are \<open>0..N-1\<close>, and then,
  whichever chunk the map iteration yields first, the message is complete and
  \<^verbatim>\<open>Assemble\<close> returns exactly the data and leaves the assembler empty.
\<close>

theorem split_add_assemble:
  assumes "mid \<noteq> []" and "data \<noteq> []" and "0 < cs"
    and "int (length data) + cs - 1 < 2 ^ 63"
  shows "\<exists>parts. SplitMessage mid data cs = Inr parts \<and>
           (\<forall>order. mset order = mset parts \<longrightarrow>
              (\<exists>ca. addChunks NewChunkAssembler order = (None, ca) \<and>
                    stored_seqs ca mid = {0..<int (length parts)} \<and> parts \<noteq> [] \<and>
                    (\<forall>first\<in>stored_seqs ca mid.
                       IsComplete ca first mid \<and>
                       Assemble ca first mid = (Inr data, NewChunkAssembler))))"
proof -
  define n where "n = chunk_count data cs"
  define parts where "parts = map (chunk_at mid data cs n) [0..n - 1]"
  have npos: "0 < n"
    using chunk_count_pos [OF assms(3,2)] by (simp add: n_def)
  have split: "SplitMessage mid data cs = Inr parts"
    using SplitMessage_chunks [OF assms(3,2,4), of mid] by (simp add: parts_def n_def)
  have seqs: "map Seq parts = [0..n - 1]"
    by (simp add: parts_def o_def)
  have valid: "chunk_valid c \<and> MessageID c = mid" if "c \<in> set parts" for c
    using that chunk_at_valid [OF assms(1,3), of _ data] by (auto simp: parts_def n_def)
  have len: "int (length parts) = n" "parts \<noteq> []"
    using npos by (auto simp: parts_def)
  have "\<exists>ca. addChunks NewChunkAssembler order = (None, ca) \<and>
             stored_seqs ca mid = {0..<int (length parts)} \<and> parts \<noteq> [] \<and>
             (\<forall>first\<in>stored_seqs ca mid.
                IsComplete ca first mid \<and> Assemble ca first mid = (Inr data, NewChunkAssembler))"
    if perm: "mset order = mset parts" for order
  proof -
    define inner where "inner = store_all order fmempty"
    define ca where "ca = \<lparr>chunks = fmupd mid inner fmempty\<rparr>"
    have sets: "set order = set parts"
      using perm by (rule mset_eq_setD)
    have "mset (map Seq order) = mset (map Seq parts)"
      using perm by simp
    then have dist: "distinct (map Seq order)"
      using seqs by (metis mset_eq_imp_distinct_iff distinct_upto)
    have ne: "order \<noteq> []"
      using sets npos by (auto simp: parts_def)
    have added: "addChunks NewChunkAssembler order = (None, ca)"
      using valid sets ne
      by (subst addChunks_valid [where mid = mid])
        (auto simp: ca_def inner_def inner_chunks_def NewChunkAssembler_def)
    have look: "fmlookup inner j = Some (chunk_at mid data cs n j)" if "0 \<le> j" "j < n" for j
    proof -
      have "chunk_at mid data cs n j \<in> set order"
        using that sets by (simp add: parts_def)
      from store_all_lookup [OF dist this, of fmempty] show ?thesis
        by (simp add: inner_def)
    qed
    have "fmdom' inner = Seq ` set parts"
      by (simp add: inner_def store_all_dom sets)
    also have "\<dots> = set (map Seq parts)" by simp
    also have "\<dots> = {0..<n}" unfolding seqs by auto
    finally have dom: "fmdom' inner = {0..<n}" .
    have entry: "fmlookup (chunks ca) mid = Some inner"
      by (simp add: ca_def)
    have stored: "stored_seqs ca mid = {0..<n}"
      by (simp add: stored_seqs_def entry dom)
    have complete: "IsComplete ca first mid" if "first \<in> {0..<n}" for first
    proof -
      have l: "fmlookup inner first = Some (chunk_at mid data cs n first)"
        using that by (intro look) simp_all
      show ?thesis
        using IsComplete_char [OF entry l] npos dom by simp
    qed
    have loop: "assembleLoop inner n 0 [] = Inr data"
    proof -
      have "\<forall>j. 0 \<le> j \<and> j < n \<longrightarrow> fmlookup inner j = Some (chunk_at mid data cs n j)"
        using look by simp
      from assembleLoop_all [OF this, of "[]"] concat_chunks [OF assms(3), of mid data n]
      show ?thesis by (simp add: n_def)
    qed
    have assemble: "Assemble ca first mid = (Inr data, NewChunkAssembler)"
      if "first \<in> {0..<n}" for first
    proof -
      have "fmlookup inner 0 = Some (chunk_at mid data cs n 0)"
        using npos by (intro look) simp_all
      then show ?thesis
        using complete [OF that] entry loop
        by (simp add: Assemble_def) (simp add: ca_def NewChunkAssembler_def fmdrop_fmupd_same)
    qed
    from added stored complete assemble len show ?thesis
      by (intro exI [of _ ca]) auto
  qed
  with split show ?thesis by blast
qed

theorem split_add_assemble_witness:
  "\<exists>parts. SplitMessage ''msg1'' [1, 2, 3, 4, 5] 2 = Inr parts \<and> length parts = 3 \<and>
      (\<exists>ca. addChunks NewChunkAssembler (rev parts) = (None, ca) \<and>
            Assemble ca 0 ''msg1'' = (Inr [1, 2, 3, 4, 5], NewChunkAssembler))"
proof -
  have h: "''msg1'' \<noteq> []" "[1, 2, 3, 4, 5 :: byte] \<noteq> []" "(0::int) < 2"
    "int (length [1, 2, 3, 4, 5 :: byte]) + 2 - 1 < 2 ^ 63"
    by simp_all
  from split_add_assemble [OF h] obtain parts
    where s: "SplitMessage ''msg1'' [1, 2, 3, 4, 5] 2 = Inr parts"
      and a: "\<forall>order. mset order = mset parts \<longrightarrow>
              (\<exists>ca. addChunks NewChunkAssembler order = (None, ca) \<and>
                    stored_seqs ca ''msg1'' = {0..<int (length parts)} \<and> parts \<noteq> [] \<and>
                    (\<forall>first\<in>stored_seqs ca ''msg1''.
                       IsComplete ca first ''msg1'' \<and>
                       Assemble ca first ''msg1'' = (Inr [1, 2, 3, 4, 5], NewChunkAssembler)))"
    by blast
  have "SplitMessage ''msg1'' [1, 2, 3, 4, 5] 2 =
          Inr (map (chunk_at ''msg1'' [1, 2, 3, 4, 5] 2 3) [0..2])"
    using SplitMessage_chunks [of 2 "[1, 2, 3, 4, 5]" "''msg1''"]
    by (simp add: chunk_count_def)
  with s have l: "length parts = 3" by auto
  have "mset (rev parts) = mset parts" by simp
  with a obtain ca where ca: "addChunks NewChunkAssembler (rev parts) = (None, ca)"
    "stored_seqs ca ''msg1'' = {0..<int (length parts)}"
    "\<forall>first\<in>stored_seqs ca ''msg1''.
        Assemble ca first ''msg1'' = (Inr [1, 2, 3, 4, 5], NewChunkAssembler)"
    by blast
  from ca(2,3) l have "Assemble ca 0 ''msg1'' = (Inr [1, 2, 3, 4, 5], NewChunkAssembler)"
    by simp
  with s l ca(1) show ?thesis by blast
qed

end
